theory Spec2Isabelle
  imports Main "HOL-Library.Word" "HOL-Library.Sublist"
begin

section \<open>rtlog: the realtime logger and its processing thread\<close>

text \<open>
  The development embeds \<^verbatim>\<open>rtlog::Logger\<close> (\<^verbatim>\<open>Log\<close>, \<^verbatim>\<open>LogFmt\<close>,
  \<^verbatim>\<open>PrintAndClearLogQueue\<close>) and \<^verbatim>\<open>rtlog::LogProcessingThread\<close>
  (\<^verbatim>\<open>Stop\<close>, \<^verbatim>\<open>ThreadMain\<close>).

  Conventions.
  \<^item> \<^verbatim>\<open>std::size_t\<close> values that are counted up (the sequence number) are 64-bit words,
    so \<^verbatim>\<open>++SequenceNumber\<close> wraps around. Sizes of buffers and queues are natural numbers;
    \<^verbatim>\<open>MaxMessageLength\<close> is taken to fit the \<^verbatim>\<open>int\<close> parameter of the formatter and
    \<^verbatim>\<open>MaxNumMessages\<close> the \<^verbatim>\<open>int\<close> counter of the drain.
  \<^item> A \<^verbatim>\<open>std::array<char, N>\<close> is a \<open>char list\<close> of length \<open>N\<close>.
  \<^item> The template parameters \<^verbatim>\<open>MaxNumMessages\<close> and \<^verbatim>\<open>MaxMessageLength\<close> and the counter
    \<^verbatim>\<open>SequenceNumber\<close> that the template refers to are fields of the logger's state.
\<close>

subsection \<open>Status and the queued record\<close>

datatype Status = Success | Error_QueueFull | Error_MessageTruncated

record 'd InternalLogData =
  mLogData :: 'd
  mSequenceNumber :: "64 word"
  mMessage :: "char list"

abbreviation NUL :: char where
  "NUL \<equiv> CHR 0x00"

text \<open>What a reader of the C string at the start of a buffer sees: the bytes before the first NUL.\<close>

definition c_str :: "char list \<Rightarrow> string" where
  "c_str buf = takeWhile (\<lambda>c. c \<noteq> NUL) buf"

subsection \<open>The single-producer single-consumer queue\<close>

text \<open>
  Modelled from the spec: \<^verbatim>\<open>boost::lockfree::spsc_queue\<close> is a library type whose code is not
  part of the repository. The spec describes it as a fixed-capacity ring buffer, written by one
  producer and read by one consumer, that serves records in arrival order; \<^verbatim>\<open>push\<close> fails
  without storing when no slot is free and \<^verbatim>\<open>pop\<close> fails when the queue is empty. The model keeps
  the capacity given to the constructor and the unconsumed records, oldest first.
\<close>

record 'a spsc_queue =
  capacity :: nat
  items :: "'a list"

definition spsc_queue_new :: "nat \<Rightarrow> 'a spsc_queue" where
  "spsc_queue_new element_count = \<lparr>capacity = element_count, items = []\<rparr>"

definition push :: "'a \<Rightarrow> 'a spsc_queue \<Rightarrow> bool \<times> 'a spsc_queue" where
  "push x q =
     (if length (items q) < capacity q then (True, q\<lparr>items := items q @ [x]\<rparr>)
      else (False, q))"

definition pop :: "'a spsc_queue \<Rightarrow> ('a \<times> 'a spsc_queue) option" where
  "pop q = (case items q of [] \<Rightarrow> None | x # xs \<Rightarrow> Some (x, q\<lparr>items := xs\<rparr>))"

subsection \<open>Formatters\<close>

text \<open>
  The formatters are library functions. \<^verbatim>\<open>Log\<close> and \<^verbatim>\<open>LogFmt\<close> take them as
  parameters: a \<open>vsnprintf\<close> gets the destination buffer (its length is the \<^verbatim>\<open>count\<close>
  argument) and the format with its arguments, and returns \<^verbatim>\<open>charsPrinted\<close> and the buffer
  as written; a \<open>format_to_n\<close> gets the buffer, the limit \<open>n\<close> and the format with its
  arguments, and returns the buffer as written and \<^verbatim>\<open>result.size\<close>.
\<close>

type_synonym 'f vsnprintf = "char list \<Rightarrow> 'f \<Rightarrow> int \<times> char list"
type_synonym 'f format_to_n = "char list \<Rightarrow> nat \<Rightarrow> 'f \<Rightarrow> char list \<times> nat"

text \<open>
  Modelled from the spec: \<^verbatim>\<open>stbsp_vsnprintf\<close> (stb\_sprintf.h is not part of the repository).
  The spec calls it a snprintf-equivalent that always null-terminates, even on overflow. The format
  and its arguments are represented by the text \<open>txt\<close> they expand to: at most \<open>count - 1\<close>
  bytes of it are stored, then a NUL, and the length of the whole text is returned.
\<close>

definition stbsp_vsnprintf :: "string vsnprintf" where
  "stbsp_vsnprintf buf txt =
     (let count = length buf in
      if count = 0 then (int (length txt), buf)
      else
        let l = min (length txt) (count - 1)
        in (int (length txt), take l txt @ [NUL] @ drop (l + 1) buf))"

text \<open>
  Modelled from the spec: \<^verbatim>\<open>fmt::format_to_n\<close> ({fmt} is not part of the repository), the
  compile-time-checked formatter of the spec's external interfaces. It stores at most \<open>n\<close>
  bytes of the text, no terminator, and reports the length of the whole text.
\<close>

definition fmt_format_to_n :: "string format_to_n" where
  "fmt_format_to_n buf n txt =
     (let k = min n (length txt) in (take k txt @ drop k buf, length txt))"

subsection \<open>Logger\<close>

record 'd Logger =
  MaxMessageLength :: nat
  SequenceNumber :: "64 word"
  mQueue :: "'d InternalLogData spsc_queue"

text \<open>
  Construction: \<^verbatim>\<open>mQueue{ MaxNumMessages }\<close>; the counter is the caller's. The template
  constant \<^verbatim>\<open>MaxNumMessages\<close> is used nowhere else, so it is read back from the queue.
\<close>

definition Logger_new :: "nat \<Rightarrow> nat \<Rightarrow> 64 word \<Rightarrow> 'd Logger" where
  "Logger_new max_num max_len counter =
     \<lparr>MaxMessageLength = max_len, SequenceNumber = counter, mQueue = spsc_queue_new max_num\<rparr>"

definition MaxNumMessages :: "'d Logger \<Rightarrow> nat" where
  "MaxNumMessages lg = capacity (mQueue lg)"

text \<open>
  \<^verbatim>\<open>InternalLogData dataToQueue;\<close> value-initialises the message array to zeros.
  \<^verbatim>\<open>dataToQueue.mMessage.size()\<close> is the template constant \<^verbatim>\<open>MaxMessageLength\<close>.
\<close>

definition Log :: "'f vsnprintf \<Rightarrow> 'd \<Rightarrow> 'f \<Rightarrow> 'd Logger \<Rightarrow> Status \<times> 'd Logger" where
  "Log vsnprintf inputData format_args lg =
     (let retVal = Success;
          counter = SequenceNumber lg + 1;
          dataToQueue = \<lparr>mLogData = inputData, mSequenceNumber = counter,
                         mMessage = replicate (MaxMessageLength lg) NUL\<rparr>;
          (charsPrinted, buf) = vsnprintf (mMessage dataToQueue) format_args;
          dataToQueue = dataToQueue\<lparr>mMessage := buf\<rparr>;
          retVal = (if charsPrinted < 0 \<or> nat charsPrinted \<ge> MaxMessageLength lg
                    then Error_MessageTruncated else retVal);
          (dataWasEnqueued, q) = push dataToQueue (mQueue lg);
          retVal = (if \<not> dataWasEnqueued then Error_QueueFull else retVal)
      in (retVal, lg\<lparr>SequenceNumber := counter, mQueue := q\<rparr>))"

text \<open>
  \<^verbatim>\<open>LogFmt\<close> calls \<^verbatim>\<open>mQueue.try_enqueue\<close>; on the queue type of this class that is
  \<^verbatim>\<open>push\<close>. \<^verbatim>\<open>mMessage.size() - 1\<close> is unsigned: for an empty array it wraps and the
  formatter would write outside it, so the model is meant for \<open>0 < MaxMessageLength\<close>.
\<close>

definition LogFmt :: "'f format_to_n \<Rightarrow> 'd \<Rightarrow> 'f \<Rightarrow> 'd Logger \<Rightarrow> Status \<times> 'd Logger" where
  "LogFmt format_to_n inputData format_args lg =
     (let retVal = Success;
          counter = SequenceNumber lg + 1;
          dataToQueue = \<lparr>mLogData = inputData, mSequenceNumber = counter,
                         mMessage = replicate (MaxMessageLength lg) NUL\<rparr>;
          maxMessageLength = MaxMessageLength lg - 1;
          (buf, result_size) = format_to_n (mMessage dataToQueue) maxMessageLength format_args;
          dataToQueue = dataToQueue\<lparr>mMessage := buf\<rparr>;
          (dataToQueue, retVal) =
             (if result_size \<ge> MaxMessageLength lg
              then (dataToQueue\<lparr>mMessage := (mMessage dataToQueue)
                                   [MaxMessageLength lg - 1 := NUL]\<rparr>,
                    Error_MessageTruncated)
              else (dataToQueue\<lparr>mMessage := (mMessage dataToQueue)[result_size := NUL]\<rparr>,
                    retVal));
          (dataWasEnqueued, q) = push dataToQueue (mQueue lg);
          retVal = (if \<not> dataWasEnqueued then Error_QueueFull else retVal)
      in (retVal, lg\<lparr>SequenceNumber := counter, mQueue := q\<rparr>))"

text \<open>
  The sink \<^verbatim>\<open>printLogFn\<close> is called with the metadata, the sequence number, the format
  \<^verbatim>\<open>"%s"\<close> and the message buffer; what it does is a change of its own state \<open>'s\<close>.
\<close>

type_synonym ('d, 's) PrintLogFn = "'d \<Rightarrow> 64 word \<Rightarrow> string \<Rightarrow> char list \<Rightarrow> 's \<Rightarrow> 's"

text \<open>The \<^verbatim>\<open>while ( mQueue.pop( value ) )\<close> loop, entered with \<open>numProcessed\<close> so far.\<close>

function drain_loop ::
  "('d, 's) PrintLogFn \<Rightarrow> 's \<Rightarrow> int \<Rightarrow> 'd InternalLogData spsc_queue
     \<Rightarrow> 's \<times> int \<times> 'd InternalLogData spsc_queue" where
  "drain_loop printLogFn s numProcessed q =
     (case pop q of
        None \<Rightarrow> (s, numProcessed, q)
      | Some (v, q') \<Rightarrow>
          drain_loop printLogFn
            (printLogFn (mLogData v) (mSequenceNumber v) ''%s'' (mMessage v) s)
            (numProcessed + 1) q')"
  by pat_completeness auto
termination
  by (relation "measure (\<lambda>(f, s, n, q). length (items q))")
     (auto simp: pop_def split: list.splits)

declare drain_loop.simps [simp del]

definition PrintAndClearLogQueue ::
  "('d, 's) PrintLogFn \<Rightarrow> 's \<Rightarrow> 'd Logger \<Rightarrow> 's \<times> int \<times> 'd Logger" where
  "PrintAndClearLogQueue printLogFn s lg =
     (let numProcessed = 0;
          (s', numProcessed, q) = drain_loop printLogFn s numProcessed (mQueue lg)
      in (s', numProcessed, lg\<lparr>mQueue := q\<rparr>))"

text \<open>A sink that keeps the arguments of every call, in call order.\<close>

type_synonym 'd sink_call = "'d \<times> 64 word \<times> string \<times> char list"

definition record_sink :: "('d, 'd sink_call list) PrintLogFn" where
  "record_sink d n fstring msg calls = calls @ [(d, n, fstring, msg)]"

definition sink_call_of :: "'d InternalLogData \<Rightarrow> 'd sink_call" where
  "sink_call_of v = (mLogData v, mSequenceNumber v, ''%s'', mMessage v)"

subsection \<open>Sequences of producer calls\<close>

text \<open>
  A run of the producer: the calls of \<^verbatim>\<open>Log\<close> one after the other on the same logger,
  with the statuses they return.
\<close>

fun Log_calls :: "'f vsnprintf \<Rightarrow> ('d \<times> 'f) list \<Rightarrow> 'd Logger \<Rightarrow> Status list \<times> 'd Logger" where
  "Log_calls vsnprintf [] lg = ([], lg)"
| "Log_calls vsnprintf ((d, a) # cs) lg =
     (case Log vsnprintf d a lg of (st, lg1) \<Rightarrow>
        (case Log_calls vsnprintf cs lg1 of (sts, lg2) \<Rightarrow> (st # sts, lg2)))"

text \<open>
  For stating what such a run leaves in the queue: the record that each call builds before it
  offers it to the queue (the \<open>k\<close>-th call after counter value \<open>c\<close> numbers its record
  \<open>c + k\<close>, modulo \<open>2 ^ 64\<close>), and of these the ones whose call did not return
  \<^verbatim>\<open>Error_QueueFull\<close>.
\<close>

fun built_records ::
  "'f vsnprintf \<Rightarrow> nat \<Rightarrow> 64 word \<Rightarrow> ('d \<times> 'f) list \<Rightarrow> 'd InternalLogData list" where
  "built_records vsnprintf max_len counter [] = []"
| "built_records vsnprintf max_len counter ((d, a) # cs) =
     \<lparr>mLogData = d, mSequenceNumber = counter + 1,
      mMessage = snd (vsnprintf (replicate max_len NUL) a)\<rparr>
       # built_records vsnprintf max_len (counter + 1) cs"

definition pushed_records :: "Status list \<Rightarrow> 'a list \<Rightarrow> 'a list" where
  "pushed_records sts rs = map snd (filter (\<lambda>(st, r). st \<noteq> Error_QueueFull) (zip sts rs))"

definition sink_call_seq :: "'d sink_call \<Rightarrow> 64 word" where
  "sink_call_seq c = fst (snd c)"

text \<open>
  Any mix of the three operations of the class, with the recording sink. A message buffer is
  terminated when it has the length of the array and holds a NUL.
\<close>

datatype 'd operation = OpLog 'd string | OpLogFmt 'd string | OpPrintAndClear

fun apply_operation ::
  "'d operation \<Rightarrow> 'd Logger \<times> 'd sink_call list \<Rightarrow> 'd Logger \<times> 'd sink_call list" where
  "apply_operation (OpLog d txt) (lg, calls) = (snd (Log stbsp_vsnprintf d txt lg), calls)"
| "apply_operation (OpLogFmt d txt) (lg, calls) = (snd (LogFmt fmt_format_to_n d txt lg), calls)"
| "apply_operation OpPrintAndClear (lg, calls) =
     (case PrintAndClearLogQueue record_sink calls lg of (calls', n, lg') \<Rightarrow> (lg', calls'))"

definition terminated :: "nat \<Rightarrow> char list \<Rightarrow> bool" where
  "terminated n buf \<longleftrightarrow> length buf = n \<and> NUL \<in> set buf"

definition all_terminated :: "'d Logger \<times> 'd sink_call list \<Rightarrow> bool" where
  "all_terminated st \<longleftrightarrow>
     (\<forall>v \<in> set (items (mQueue (fst st))). terminated (MaxMessageLength (fst st)) (mMessage v))
     \<and> (\<forall>c \<in> set (snd st). terminated (MaxMessageLength (fst st)) (snd (snd (snd c))))"

subsection \<open>LogProcessingThread\<close>

text \<open>
  \<^verbatim>\<open>ThreadMain\<close> runs concurrently with the producer and with the caller of
  \<^verbatim>\<open>Stop\<close>. It is embedded as a transition system: the thread's state carries the
  control location inside \<^verbatim>\<open>ThreadMain\<close>, and one step is one atomic action of the thread
  (a load of \<^verbatim>\<open>mShouldRun\<close>, one \<^verbatim>\<open>pop\<close> with its call of the sink, one
  \<^verbatim>\<open>sleep_for\<close>). The steps of the thread interleave with calls of the producer and of
  \<^verbatim>\<open>Stop\<close>; the atomic flag and the queue are the only shared objects.

  Locations: \<open>AtLoopTest\<close> is the \<^verbatim>\<open>while\<close> condition, \<open>InLoopDrain n\<close> the
  \<^verbatim>\<open>PrintAndClearLogQueue\<close> call of the loop body with \<^verbatim>\<open>numProcessed = n\<close>,
  \<open>AtIdleSleep\<close> the \<^verbatim>\<open>sleep_for\<close> guarded by \<^verbatim>\<open>== 0\<close>, \<open>AtLoopSleep\<close> the
  \<^verbatim>\<open>sleep_for\<close> that ends the loop body, \<open>InFinalDrain n\<close> the call after the loop,
  \<open>Exited\<close> the return. The thread keeps a trace of what it did.
\<close>

datatype location = AtLoopTest | InLoopDrain int | AtIdleSleep | AtLoopSleep | InFinalDrain int | Exited

datatype event = Load bool | DrainCall | DrainReturn int | Sleep nat

record ('d, 's) LogProcessingThread =
  mPrintFn :: 's
  mLogger :: "'d Logger"
  mShouldRun :: bool
  mWaitTime :: nat
  loc :: location
  trace :: "event list"


text \<open>
  The constructor stores its arguments and starts the thread at the top of
  \<^verbatim>\<open>ThreadMain\<close>; \<^verbatim>\<open>mShouldRun\<close> is initialised to \<^verbatim>\<open>true\<close>.
\<close>

definition LogProcessingThread_new ::
  "'d Logger \<Rightarrow> 's \<Rightarrow> nat \<Rightarrow> ('d, 's) LogProcessingThread" where
  "LogProcessingThread_new logger printFn waitTime =
     \<lparr>mPrintFn = printFn, mLogger = logger, mShouldRun = True, mWaitTime = waitTime,
      loc = AtLoopTest, trace = []\<rparr>"

definition Stop :: "('d, 's) LogProcessingThread \<Rightarrow> ('d, 's) LogProcessingThread" where
  "Stop t = t\<lparr>mShouldRun := False\<rparr>"

definition sleep_for :: "nat \<Rightarrow> ('d, 's) LogProcessingThread \<Rightarrow> ('d, 's) LogProcessingThread" where
  "sleep_for ms t = t\<lparr>trace := trace t @ [Sleep ms]\<rparr>"

text \<open>
  One round of the \<^verbatim>\<open>while ( mQueue.pop( value ) )\<close> loop of
  \<^verbatim>\<open>PrintAndClearLogQueue\<close> on the thread's logger and sink; \<open>None\<close> when
  \<^verbatim>\<open>pop\<close> fails.
\<close>

definition pop_and_print ::
  "('d, 's) PrintLogFn \<Rightarrow> ('d, 's) LogProcessingThread \<Rightarrow> ('d, 's) LogProcessingThread option" where
  "pop_and_print printLogFn t =
     (case pop (mQueue (mLogger t)) of
        None \<Rightarrow> None
      | Some (v, q) \<Rightarrow>
          Some (t\<lparr>mPrintFn := printLogFn (mLogData v) (mSequenceNumber v) ''%s'' (mMessage v)
                                (mPrintFn t),
                  mLogger := (mLogger t)\<lparr>mQueue := q\<rparr>\<rparr>))"

definition ThreadMain_step ::
  "('d, 's) PrintLogFn \<Rightarrow> ('d, 's) LogProcessingThread \<Rightarrow> ('d, 's) LogProcessingThread" where
  "ThreadMain_step printLogFn t =
     (case loc t of
        AtLoopTest \<Rightarrow>
          (if mShouldRun t
           then t\<lparr>loc := InLoopDrain 0, trace := trace t @ [Load True, DrainCall]\<rparr>
           else t\<lparr>loc := InFinalDrain 0, trace := trace t @ [Load False, DrainCall]\<rparr>)
      | InLoopDrain numProcessed \<Rightarrow>
          (case pop_and_print printLogFn t of
             Some t' \<Rightarrow> t'\<lparr>loc := InLoopDrain (numProcessed + 1)\<rparr>
           | None \<Rightarrow>
               t\<lparr>loc := (if numProcessed = 0 then AtIdleSleep else AtLoopSleep),
                 trace := trace t @ [DrainReturn numProcessed]\<rparr>)
      | AtIdleSleep \<Rightarrow> (sleep_for (mWaitTime t) t)\<lparr>loc := AtLoopSleep\<rparr>
      | AtLoopSleep \<Rightarrow> (sleep_for (mWaitTime t) t)\<lparr>loc := AtLoopTest\<rparr>
      | InFinalDrain numProcessed \<Rightarrow>
          (case pop_and_print printLogFn t of
             Some t' \<Rightarrow> t'\<lparr>loc := InFinalDrain (numProcessed + 1)\<rparr>
           | None \<Rightarrow> t\<lparr>loc := Exited, trace := trace t @ [DrainReturn numProcessed]\<rparr>)
      | Exited \<Rightarrow> t)"

text \<open>
  The whole system: the thread, the producer calling \<^verbatim>\<open>Log\<close> or
  \<^verbatim>\<open>LogFmt\<close> on the shared logger, and \<^verbatim>\<open>Stop\<close>. The sink records its calls.
  \<open>enqueued\<close> is a history variable: the records that the queue has accepted so far, in
  order (those already in the queue at construction included).
\<close>

datatype 'd action = ThreadStep | ProducerLog 'd string | ProducerLogFmt 'd string | StopCall

record 'd system =
  thread :: "('d, 'd sink_call list) LogProcessingThread"
  enqueued :: "'d InternalLogData list"

definition system_new :: "'d Logger \<Rightarrow> nat \<Rightarrow> 'd system" where
  "system_new logger waitTime =
     \<lparr>thread = LogProcessingThread_new logger [] waitTime, enqueued = items (mQueue logger)\<rparr>"

definition producer_step :: "('d Logger \<Rightarrow> Status \<times> 'd Logger) \<Rightarrow> 'd system \<Rightarrow> 'd system" where
  "producer_step call s =
     (let lg = mLogger (thread s); lg' = snd (call lg)
      in s\<lparr>thread := (thread s)\<lparr>mLogger := lg'\<rparr>,
           enqueued := enqueued s @ drop (length (items (mQueue lg))) (items (mQueue lg'))\<rparr>)"

fun system_step :: "'d action \<Rightarrow> 'd system \<Rightarrow> 'd system" where
  "system_step ThreadStep s = s\<lparr>thread := ThreadMain_step record_sink (thread s)\<rparr>"
| "system_step (ProducerLog d txt) s = producer_step (Log stbsp_vsnprintf d txt) s"
| "system_step (ProducerLogFmt d txt) s = producer_step (LogFmt fmt_format_to_n d txt) s"
| "system_step StopCall s = s\<lparr>thread := Stop (thread s)\<rparr>"

definition run :: "'d action list \<Rightarrow> 'd system \<Rightarrow> 'd system" where
  "run acts s = fold system_step acts s"

text \<open>
  How many steps the thread needs to return once \<^verbatim>\<open>mShouldRun\<close> is false and nobody
  else acts.
\<close>

definition steps_to_exit :: "('d, 's) LogProcessingThread \<Rightarrow> nat" where
  "steps_to_exit t =
     (let k = length (items (mQueue (mLogger t))) in
      case loc t of
        AtLoopTest \<Rightarrow> k + 2
      | InLoopDrain n \<Rightarrow> k + (if n + int k = 0 then 5 else 4)
      | AtIdleSleep \<Rightarrow> k + 4
      | AtLoopSleep \<Rightarrow> k + 3
      | InFinalDrain n \<Rightarrow> k + 1
      | Exited \<Rightarrow> 0)"

text \<open>
  Invariants of the system. \<open>since_stop_seen\<close> is the trace from the first load that
  returned false. \<open>conserved\<close>: what was enqueued is what was printed followed by what is
  still queued. \<open>trace_inv\<close>: before the loop is left no load has returned false; in the
  final drain the trace since then is that load and the call; after the return it is that load,
  the call and its return. \<open>flushed rs\<close>: the flag is down, \<open>rs\<close> were enqueued,
  and once the thread has returned at least as many records as \<open>rs\<close> were printed.
\<close>

definition since_stop_seen :: "event list \<Rightarrow> event list" where
  "since_stop_seen tr = dropWhile (\<lambda>e. e \<noteq> Load False) tr"

definition conserved :: "'d system \<Rightarrow> bool" where
  "conserved s \<longleftrightarrow>
     map sink_call_of (enqueued s)
       = mPrintFn (thread s) @ map sink_call_of (items (mQueue (mLogger (thread s))))"

fun trace_inv_at :: "location \<Rightarrow> event list \<Rightarrow> bool" where
  "trace_inv_at (InFinalDrain n) tr = (tr = [Load False, DrainCall])"
| "trace_inv_at Exited tr = (\<exists>n. tr = [Load False, DrainCall, DrainReturn n])"
| "trace_inv_at l tr = (tr = [])"

definition trace_inv :: "('d, 's) LogProcessingThread \<Rightarrow> bool" where
  "trace_inv t = trace_inv_at (loc t) (since_stop_seen (trace t))"

fun in_loop_at :: "location \<Rightarrow> bool" where
  "in_loop_at (InFinalDrain n) = False"
| "in_loop_at Exited = False"
| "in_loop_at l = True"

definition in_loop :: "('d, 's) LogProcessingThread \<Rightarrow> bool" where
  "in_loop t = in_loop_at (loc t)"

definition flushed :: "'d InternalLogData list \<Rightarrow> 'd system \<Rightarrow> bool" where
  "flushed rs s \<longleftrightarrow>
     conserved s \<and> \<not> mShouldRun (thread s) \<and> prefix rs (enqueued s)
     \<and> (loc (thread s) = Exited \<longrightarrow> length rs \<le> length (mPrintFn (thread s)))"

section \<open>Properties\<close>

subsection \<open>Queue and drain\<close>

lemma push_full: "\<not> length (items q) < capacity q \<Longrightarrow> push x q = (False, q)"
  by (simp add: push_def)

lemma push_free:
  "length (items q) < capacity q \<Longrightarrow> push x q = (True, q\<lparr>items := items q @ [x]\<rparr>)"
  by (simp add: push_def)

lemma drain_loop_fold:
  "drain_loop f s n q =
     (fold (\<lambda>v. f (mLogData v) (mSequenceNumber v) ''%s'' (mMessage v)) (items q) s,
      n + int (length (items q)), q\<lparr>items := []\<rparr>)"
proof (induction f s n q rule: drain_loop.induct)
  case (1 f s n q)
  show ?case
  proof (cases "items q")
    case Nil
    then show ?thesis
      by (subst drain_loop.simps) (simp add: pop_def)
  next
    case (Cons v vs)
    then have "pop q = Some (v, q\<lparr>items := vs\<rparr>)"
      by (simp add: pop_def)
    with "1.IH" [of "(v, q\<lparr>items := vs\<rparr>)" v "q\<lparr>items := vs\<rparr>"] Cons show ?thesis
      by (subst drain_loop.simps) simp
  qed
qed

lemma fold_record_sink:
  "fold (\<lambda>v. record_sink (mLogData v) (mSequenceNumber v) ''%s'' (mMessage v)) vs calls
     = calls @ map sink_call_of vs"
  by (induction vs arbitrary: calls) (simp_all add: record_sink_def sink_call_of_def)

lemma PrintAndClearLogQueue_record:
  "PrintAndClearLogQueue record_sink calls lg =
     (calls @ map sink_call_of (items (mQueue lg)), int (length (items (mQueue lg))),
      lg\<lparr>mQueue := (mQueue lg)\<lparr>items := []\<rparr>\<rparr>)"
  by (simp add: PrintAndClearLogQueue_def drain_loop_fold fold_record_sink)

subsection \<open>The formatters\<close>

lemma stbsp_vsnprintf_chars: "fst (stbsp_vsnprintf buf txt) = int (length txt)"
  by (simp add: stbsp_vsnprintf_def Let_def)

lemma stbsp_vsnprintf_length: "length (snd (stbsp_vsnprintf buf txt)) = length buf"
  by (cases buf) (auto simp add: stbsp_vsnprintf_def Let_def min_def)

lemma stbsp_vsnprintf_terminated:
  "0 < length buf \<Longrightarrow> NUL \<in> set (snd (stbsp_vsnprintf buf txt))"
  by (simp add: stbsp_vsnprintf_def Let_def)

lemma stbsp_vsnprintf_fits:
  "length txt < n \<Longrightarrow>
   snd (stbsp_vsnprintf (replicate n NUL) txt) = txt @ replicate (n - length txt) NUL"
  by (cases "n - length txt") (auto simp add: stbsp_vsnprintf_def Let_def min_def)

lemma stbsp_vsnprintf_truncates:
  "0 < n \<Longrightarrow> n \<le> length txt \<Longrightarrow>
   snd (stbsp_vsnprintf (replicate n NUL) txt) = take (n - 1) txt @ [NUL]"
  by (auto simp add: stbsp_vsnprintf_def Let_def min_def)

lemma fmt_format_to_n_size: "snd (fmt_format_to_n buf n txt) = length txt"
  by (simp add: fmt_format_to_n_def Let_def)

lemma fmt_format_to_n_length:
  "n \<le> length buf \<Longrightarrow> length (fst (fmt_format_to_n buf n txt)) = length buf"
  by (auto simp add: fmt_format_to_n_def Let_def min_def)

lemma LogFmt_message_fits:
  "length txt < n \<Longrightarrow>
   (fst (fmt_format_to_n (replicate n NUL) (n - 1) txt))[min (n - 1) (length txt) := NUL]
     = txt @ replicate (n - length txt) NUL"
  by (cases "n - length txt") (auto simp add: fmt_format_to_n_def Let_def min_def list_update_append replicate_app_Cons_same)

lemma LogFmt_message_truncates:
  "0 < n \<Longrightarrow> n \<le> length txt \<Longrightarrow>
   (fst (fmt_format_to_n (replicate n NUL) (n - 1) txt))[min (n - 1) (length txt) := NUL]
     = take (n - 1) txt @ [NUL]"
  by (auto simp add: fmt_format_to_n_def Let_def min_def list_update_append)

lemma c_str_padded:
  "NUL \<notin> set txt \<Longrightarrow> c_str (txt @ replicate k NUL) = txt"
  by (induction "txt") (auto simp add: c_str_def takeWhile_replicate)

subsection \<open>One call of the producer\<close>

lemma Log_full:
  "\<not> length (items (mQueue lg)) < capacity (mQueue lg) \<Longrightarrow>
   Log vsnprintf d fa lg = (Error_QueueFull, lg\<lparr>SequenceNumber := SequenceNumber lg + 1\<rparr>)"
  by (simp add: Log_def Let_def push_full split: prod.splits)

lemma Log_free:
  "length (items (mQueue lg)) < capacity (mQueue lg) \<Longrightarrow>
   Log vsnprintf d fa lg =
     (if fst (vsnprintf (replicate (MaxMessageLength lg) NUL) fa) < 0
         \<or> nat (fst (vsnprintf (replicate (MaxMessageLength lg) NUL) fa)) \<ge> MaxMessageLength lg
      then Error_MessageTruncated else Success,
      lg\<lparr>SequenceNumber := SequenceNumber lg + 1,
         mQueue := (mQueue lg)\<lparr>items := items (mQueue lg) @
           [\<lparr>mLogData = d, mSequenceNumber = SequenceNumber lg + 1,
             mMessage = snd (vsnprintf (replicate (MaxMessageLength lg) NUL) fa)\<rparr>]\<rparr>\<rparr>)"
  by (simp add: Log_def Let_def push_free split: prod.splits)

lemma LogFmt_full:
  "\<not> length (items (mQueue lg)) < capacity (mQueue lg) \<Longrightarrow>
   LogFmt format_to_n d fa lg = (Error_QueueFull, lg\<lparr>SequenceNumber := SequenceNumber lg + 1\<rparr>)"
  by (simp add: LogFmt_def Let_def push_full split: prod.splits)

lemma LogFmt_free:
  "length (items (mQueue lg)) < capacity (mQueue lg) \<Longrightarrow>
   LogFmt format_to_n d fa lg =
     (if snd (format_to_n (replicate (MaxMessageLength lg) NUL) (MaxMessageLength lg - 1) fa)
           \<ge> MaxMessageLength lg
      then Error_MessageTruncated else Success,
      lg\<lparr>SequenceNumber := SequenceNumber lg + 1,
         mQueue := (mQueue lg)\<lparr>items := items (mQueue lg) @
           [\<lparr>mLogData = d, mSequenceNumber = SequenceNumber lg + 1,
             mMessage = (fst (format_to_n (replicate (MaxMessageLength lg) NUL)
                                (MaxMessageLength lg - 1) fa))
               [min (MaxMessageLength lg - 1)
                  (snd (format_to_n (replicate (MaxMessageLength lg) NUL)
                                (MaxMessageLength lg - 1) fa)) := NUL]\<rparr>]\<rparr>\<rparr>)"
proof -
  assume free: "length (items (mQueue lg)) < capacity (mQueue lg)"
  obtain b k where
    "format_to_n (replicate (MaxMessageLength lg) NUL) (MaxMessageLength lg - 1) fa = (b, k)"
    by fastforce
  moreover have "MaxMessageLength lg - 1 \<le> k \<Longrightarrow> \<not> MaxMessageLength lg \<le> k
      \<Longrightarrow> k = MaxMessageLength lg - 1"
    by arith
  ultimately show ?thesis
    using free by (auto simp add: LogFmt_def Let_def push_free min_def)
qed

lemma Log_items:
  "\<exists>new. items (mQueue (snd (Log f d a lg))) = items (mQueue lg) @ new"
  by (cases "length (items (mQueue lg)) < capacity (mQueue lg)") (simp_all add: Log_free Log_full)

lemma LogFmt_items:
  "\<exists>new. items (mQueue (snd (LogFmt f d a lg))) = items (mQueue lg) @ new"
  by (cases "length (items (mQueue lg)) < capacity (mQueue lg)")
    (simp_all add: LogFmt_free LogFmt_full)

lemma Log_MaxMessageLength [simp]:
  "MaxMessageLength (snd (Log f d a lg)) = MaxMessageLength lg"
  by (simp add: Log_def Let_def split: prod.splits)

lemma LogFmt_MaxMessageLength [simp]:
  "MaxMessageLength (snd (LogFmt f d a lg)) = MaxMessageLength lg"
  by (simp add: LogFmt_def Let_def split: prod.splits)

lemmas Log_eval = Log_def Logger_new_def spsc_queue_new_def push_def stbsp_vsnprintf_def Let_def

text \<open>
  C5. Every call of \<^verbatim>\<open>Log\<close> and of \<^verbatim>\<open>LogFmt\<close> adds exactly one to the shared sequence
  counter, whatever the formatter does and whatever status the call returns: also when the
  record is dropped because the queue is full and when the message is truncated.
\<close>

theorem Log_increments_counter:
  "SequenceNumber (snd (Log vsnprintf inputData format_args lg)) = SequenceNumber lg + 1
   \<and> SequenceNumber (snd (LogFmt format_to_n inputData format_args lg)) = SequenceNumber lg + 1"
  by (simp add: Log_def LogFmt_def Let_def split: prod.splits)

text \<open>
  C2. When, in one call of \<^verbatim>\<open>Log\<close>, the formatted text does not fit the message buffer
  (the formatter reports a negative value or at least \<^verbatim>\<open>MaxMessageLength\<close> characters) and
  the queue has no free slot, the call returns \<^verbatim>\<open>Error_QueueFull\<close>, not
  \<^verbatim>\<open>Error_MessageTruncated\<close>: the later assignment to \<^verbatim>\<open>retVal\<close> wins.
\<close>

theorem Log_QueueFull_over_truncation:
  assumes "fst (vsnprintf (replicate (MaxMessageLength lg) NUL) format_args) < 0
           \<or> MaxMessageLength lg
               \<le> nat (fst (vsnprintf (replicate (MaxMessageLength lg) NUL) format_args))"
    and "length (items (mQueue lg)) = MaxNumMessages lg"
  shows "fst (Log vsnprintf inputData format_args lg) = Error_QueueFull
         \<and> fst (Log vsnprintf inputData format_args lg) \<noteq> Error_MessageTruncated"
  using assms(2) by (simp add: Log_full MaxNumMessages_def)

theorem Log_QueueFull_over_truncation_witness:
  "(let lg = \<lparr>MaxMessageLength = 4, SequenceNumber = 1,
              mQueue = \<lparr>capacity = 1, items = [\<lparr>mLogData = (0::nat), mSequenceNumber = 1,
                                                mMessage = ''a'' @ [NUL, NUL, NUL]\<rparr>]\<rparr>\<rparr>
    in (fst (stbsp_vsnprintf (replicate (MaxMessageLength lg) NUL) ''hello'') < 0
           \<or> MaxMessageLength lg
               \<le> nat (fst (stbsp_vsnprintf (replicate (MaxMessageLength lg) NUL) ''hello'')))
       \<and> length (items (mQueue lg)) = MaxNumMessages lg
       \<and> fst (Log stbsp_vsnprintf 1 ''hello'' lg) = Error_QueueFull
       \<and> fst (Log stbsp_vsnprintf 1 ''hello'' lg) \<noteq> Error_MessageTruncated)"
  using Log_QueueFull_over_truncation
    [of stbsp_vsnprintf "\<lparr>MaxMessageLength = 4, SequenceNumber = 1,
              mQueue = \<lparr>capacity = 1, items = [\<lparr>mLogData = (0::nat), mSequenceNumber = 1,
                                                mMessage = ''a'' @ [NUL, NUL, NUL]\<rparr>]\<rparr>\<rparr>"
        "''hello''" 1]
  by (simp add: stbsp_vsnprintf_def MaxNumMessages_def Let_def)

text \<open>
  C6. When the queue already holds \<^verbatim>\<open>MaxNumMessages\<close> unconsumed records, the next call
  of \<^verbatim>\<open>Log\<close> returns \<^verbatim>\<open>Error_QueueFull\<close> and leaves the queue, its records and their
  order, exactly as it was.
\<close>

theorem Log_full_queue_unchanged:
  assumes "length (items (mQueue lg)) = MaxNumMessages lg"
  shows "fst (Log vsnprintf inputData format_args lg) = Error_QueueFull
         \<and> mQueue (snd (Log vsnprintf inputData format_args lg)) = mQueue lg"
  using assms by (simp add: Log_full MaxNumMessages_def)

theorem Log_full_queue_unchanged_witness:
  "(let lg = \<lparr>MaxMessageLength = 4, SequenceNumber = 1,
              mQueue = \<lparr>capacity = 1, items = [\<lparr>mLogData = (0::nat), mSequenceNumber = 1,
                                                mMessage = ''a'' @ [NUL, NUL, NUL]\<rparr>]\<rparr>\<rparr>
    in length (items (mQueue lg)) = MaxNumMessages lg
       \<and> fst (Log stbsp_vsnprintf 1 ''b'' lg) = Error_QueueFull
       \<and> mQueue (snd (Log stbsp_vsnprintf 1 ''b'' lg)) = mQueue lg)"
  using Log_full_queue_unchanged
    [of "\<lparr>MaxMessageLength = 4, SequenceNumber = 1,
              mQueue = \<lparr>capacity = 1, items = [\<lparr>mLogData = (0::nat), mSequenceNumber = 1,
                                                mMessage = ''a'' @ [NUL, NUL, NUL]\<rparr>]\<rparr>\<rparr>"
        stbsp_vsnprintf 1 "''b''"]
  by (simp add: MaxNumMessages_def)

text \<open>
  C10. When the formatter called by \<^verbatim>\<open>Log\<close> returns a negative value and the queue has
  a free slot, \<^verbatim>\<open>Log\<close> returns \<^verbatim>\<open>Error_MessageTruncated\<close>, the status of an oversized
  message, and still enqueues the record, with whatever the formatter left in the buffer.
\<close>

theorem Log_negative_charsPrinted:
  assumes "fst (vsnprintf (replicate (MaxMessageLength lg) NUL) format_args) < 0"
    and "length (items (mQueue lg)) < MaxNumMessages lg"
  shows "Log vsnprintf inputData format_args lg =
           (Error_MessageTruncated,
            lg\<lparr>SequenceNumber := SequenceNumber lg + 1,
               mQueue := (mQueue lg)\<lparr>items := items (mQueue lg) @
                 [\<lparr>mLogData = inputData, mSequenceNumber = SequenceNumber lg + 1,
                   mMessage = snd (vsnprintf (replicate (MaxMessageLength lg) NUL) format_args)\<rparr>]\<rparr>\<rparr>)"
  using assms by (simp add: Log_free MaxNumMessages_def)

theorem Log_negative_charsPrinted_witness:
  "(let lg = Logger_new 2 4 (0::64 word) :: nat Logger;
        failing = (\<lambda>buf (a::unit). (- 1 :: int, ''ab'' @ drop 2 buf))
    in fst (failing (replicate (MaxMessageLength lg) NUL) ()) < 0
       \<and> length (items (mQueue lg)) < MaxNumMessages lg
       \<and> Log failing 7 () lg =
           (Error_MessageTruncated,
            \<lparr>MaxMessageLength = 4, SequenceNumber = 1,
             mQueue = \<lparr>capacity = 2, items = [\<lparr>mLogData = 7, mSequenceNumber = 1,
                                                mMessage = ''ab'' @ [NUL, NUL]\<rparr>]\<rparr>\<rparr>))"
  using Log_negative_charsPrinted
    [of "\<lambda>buf (a::unit). (- 1 :: int, ''ab'' @ drop 2 buf)"
        "Logger_new 2 4 (0::64 word) :: nat Logger" "()" 7]
  by (simp add: Logger_new_def spsc_queue_new_def MaxNumMessages_def eval_nat_numeral)

text \<open>
  C3. When the formatted text does not fit the message buffer and the queue has a free slot,
  \<^verbatim>\<open>Log\<close> (and likewise \<^verbatim>\<open>LogFmt\<close>) returns \<^verbatim>\<open>Error_MessageTruncated\<close> and
  enqueues the record with a buffer that holds the first \<^verbatim>\<open>MaxMessageLength - 1\<close>
  characters of the text followed by the NUL terminator. The text does not fit as soon as its
  length reaches \<^verbatim>\<open>MaxMessageLength\<close>, which covers every longer text.
\<close>

theorem Log_truncates_oversized:
  assumes "0 < MaxMessageLength lg"
    and "MaxMessageLength lg \<le> length txt"
    and "length (items (mQueue lg)) < MaxNumMessages lg"
  shows "Log stbsp_vsnprintf inputData txt lg =
           (Error_MessageTruncated,
            lg\<lparr>SequenceNumber := SequenceNumber lg + 1,
               mQueue := (mQueue lg)\<lparr>items := items (mQueue lg) @
                 [\<lparr>mLogData = inputData, mSequenceNumber = SequenceNumber lg + 1,
                   mMessage = take (MaxMessageLength lg - 1) txt @ [NUL]\<rparr>]\<rparr>\<rparr>)
         \<and> LogFmt fmt_format_to_n inputData txt lg =
           (Error_MessageTruncated,
            lg\<lparr>SequenceNumber := SequenceNumber lg + 1,
               mQueue := (mQueue lg)\<lparr>items := items (mQueue lg) @
                 [\<lparr>mLogData = inputData, mSequenceNumber = SequenceNumber lg + 1,
                   mMessage = take (MaxMessageLength lg - 1) txt @ [NUL]\<rparr>]\<rparr>\<rparr>)"
proof -
  from assms(3) have free: "length (items (mQueue lg)) < capacity (mQueue lg)"
    by (simp add: MaxNumMessages_def)
  have "min (MaxMessageLength lg - 1) (length txt) = MaxMessageLength lg - 1"
    using assms(2) by simp
  with LogFmt_message_truncates [OF assms(1,2)]
  have "(fst (fmt_format_to_n (replicate (MaxMessageLength lg) NUL) (MaxMessageLength lg - 1) txt))
          [min (MaxMessageLength lg - 1)
             (snd (fmt_format_to_n (replicate (MaxMessageLength lg) NUL) (MaxMessageLength lg - 1) txt))
           := NUL]
        = take (MaxMessageLength lg - 1) txt @ [NUL]"
    by (simp add: fmt_format_to_n_size)
  then have "LogFmt fmt_format_to_n inputData txt lg =
           (Error_MessageTruncated,
            lg\<lparr>SequenceNumber := SequenceNumber lg + 1,
               mQueue := (mQueue lg)\<lparr>items := items (mQueue lg) @
                 [\<lparr>mLogData = inputData, mSequenceNumber = SequenceNumber lg + 1,
                   mMessage = take (MaxMessageLength lg - 1) txt @ [NUL]\<rparr>]\<rparr>\<rparr>)"
    using assms(2) by (simp add: LogFmt_free [OF free] fmt_format_to_n_size)
  moreover have "Log stbsp_vsnprintf inputData txt lg =
           (Error_MessageTruncated,
            lg\<lparr>SequenceNumber := SequenceNumber lg + 1,
               mQueue := (mQueue lg)\<lparr>items := items (mQueue lg) @
                 [\<lparr>mLogData = inputData, mSequenceNumber = SequenceNumber lg + 1,
                   mMessage = take (MaxMessageLength lg - 1) txt @ [NUL]\<rparr>]\<rparr>\<rparr>)"
    using assms(1,2)
    by (simp add: Log_free [OF free] stbsp_vsnprintf_chars stbsp_vsnprintf_truncates)
  ultimately show ?thesis by simp
qed

theorem Log_truncates_oversized_witness:
  "(let lg = Logger_new 2 4 (0::64 word) :: nat Logger
    in 0 < MaxMessageLength lg \<and> MaxMessageLength lg \<le> length ''hello''
       \<and> length (items (mQueue lg)) < MaxNumMessages lg
       \<and> Log stbsp_vsnprintf 7 ''hello'' lg =
           (Error_MessageTruncated,
            \<lparr>MaxMessageLength = 4, SequenceNumber = 1,
             mQueue = \<lparr>capacity = 2, items = [\<lparr>mLogData = 7, mSequenceNumber = 1,
                                                mMessage = ''hel'' @ [NUL]\<rparr>]\<rparr>\<rparr>)
       \<and> LogFmt fmt_format_to_n 7 ''hello'' lg =
           (Error_MessageTruncated,
            \<lparr>MaxMessageLength = 4, SequenceNumber = 1,
             mQueue = \<lparr>capacity = 2, items = [\<lparr>mLogData = 7, mSequenceNumber = 1,
                                                mMessage = ''hel'' @ [NUL]\<rparr>]\<rparr>\<rparr>))"
  using Log_truncates_oversized [of "Logger_new 2 4 (0::64 word) :: nat Logger" "''hello''" 7]
  by (simp add: Logger_new_def spsc_queue_new_def MaxNumMessages_def)

text \<open>
  C8. A message whose formatted length is less than \<^verbatim>\<open>MaxMessageLength - 1\<close>, logged
  while the queue has a free slot, makes \<^verbatim>\<open>Log\<close> return \<^verbatim>\<open>Success\<close>, and the
  following \<^verbatim>\<open>PrintAndClearLogQueue\<close> hands the sink, as the last of its calls, a buffer
  that starts with exactly the bytes of the text, followed by NUL bytes only; read as a C string
  (the text itself holding no NUL) it is the text.
\<close>

theorem Log_roundtrip_short_message:
  assumes "length txt < MaxMessageLength lg - 1"
    and "length (items (mQueue lg)) < MaxNumMessages lg"
    and "Log stbsp_vsnprintf inputData txt lg = (status, lg1)"
    and "PrintAndClearLogQueue record_sink [] lg1 = (calls, numProcessed, lg2)"
  shows "status = Success
         \<and> calls = map sink_call_of (items (mQueue lg))
                    @ [(inputData, SequenceNumber lg + 1, ''%s'',
                        txt @ replicate (MaxMessageLength lg - length txt) NUL)]
         \<and> (NUL \<notin> set txt \<longrightarrow> c_str (snd (snd (snd (last calls)))) = txt)"
proof -
  from assms(2) have free: "length (items (mQueue lg)) < capacity (mQueue lg)"
    by (simp add: MaxNumMessages_def)
  from assms(1) have fits: "length txt < MaxMessageLength lg"
    by simp
  from assms(3) fits have st: "status = Success"
    and lg1: "items (mQueue lg1) = items (mQueue lg) @
       [\<lparr>mLogData = inputData, mSequenceNumber = SequenceNumber lg + 1,
         mMessage = txt @ replicate (MaxMessageLength lg - length txt) NUL\<rparr>]"
    by (auto simp add: Log_free [OF free] stbsp_vsnprintf_chars stbsp_vsnprintf_fits)
  from assms(4) lg1 have calls: "calls = map sink_call_of (items (mQueue lg))
                    @ [(inputData, SequenceNumber lg + 1, ''%s'',
                        txt @ replicate (MaxMessageLength lg - length txt) NUL)]"
    by (simp add: PrintAndClearLogQueue_record sink_call_of_def)
  have "c_str (txt @ replicate (MaxMessageLength lg - length txt) NUL) = txt"
    if "NUL \<notin> set txt"
    using that by (rule c_str_padded)
  with st calls show ?thesis by simp
qed

theorem Log_roundtrip_short_message_witness:
  "(let lg = Logger_new 2 8 (0::64 word) :: nat Logger
    in length ''hi'' < MaxMessageLength lg - 1
       \<and> length (items (mQueue lg)) < MaxNumMessages lg
       \<and> Log stbsp_vsnprintf 7 ''hi'' lg =
            (Success, \<lparr>MaxMessageLength = 8, SequenceNumber = 1,
               mQueue = \<lparr>capacity = 2, items = [\<lparr>mLogData = 7, mSequenceNumber = 1,
                                                  mMessage = ''hi'' @ replicate 6 NUL\<rparr>]\<rparr>\<rparr>)
       \<and> PrintAndClearLogQueue record_sink []
            \<lparr>MaxMessageLength = 8, SequenceNumber = 1,
               mQueue = \<lparr>capacity = 2, items = [\<lparr>mLogData = 7::nat, mSequenceNumber = 1,
                                                  mMessage = ''hi'' @ replicate 6 NUL\<rparr>]\<rparr>\<rparr>
          = ([(7, 1, ''%s'', ''hi'' @ replicate 6 NUL)], 1,
             \<lparr>MaxMessageLength = 8, SequenceNumber = 1, mQueue = \<lparr>capacity = 2, items = []\<rparr>\<rparr>)
       \<and> NUL \<notin> set ''hi''
       \<and> c_str (''hi'' @ replicate 6 NUL) = ''hi'')"
proof -
  let ?lg = "Logger_new 2 8 (0::64 word) :: nat Logger"
  let ?lg1 = "\<lparr>MaxMessageLength = 8, SequenceNumber = 1,
               mQueue = \<lparr>capacity = 2, items = [\<lparr>mLogData = 7::nat, mSequenceNumber = 1,
                                                  mMessage = ''hi'' @ replicate 6 NUL\<rparr>]\<rparr>\<rparr>"
  have len: "length ''hi'' < MaxMessageLength ?lg - 1"
    by (simp add: Logger_new_def)
  have free: "length (items (mQueue ?lg)) < MaxNumMessages ?lg"
    by (simp add: Logger_new_def spsc_queue_new_def MaxNumMessages_def)
  have lg: "Log stbsp_vsnprintf 7 ''hi'' ?lg = (Success, ?lg1)"
    by (simp add: Log_def Logger_new_def spsc_queue_new_def push_def stbsp_vsnprintf_def Let_def
        eval_nat_numeral)
  have pr: "PrintAndClearLogQueue record_sink [] ?lg1
          = ([(7, 1, ''%s'', ''hi'' @ replicate 6 NUL)], 1,
             \<lparr>MaxMessageLength = 8, SequenceNumber = 1, mQueue = \<lparr>capacity = 2, items = []\<rparr>\<rparr>)"
    by (simp add: PrintAndClearLogQueue_record sink_call_of_def)
  from Log_roundtrip_short_message [OF len free lg pr] len free lg pr
  show ?thesis
    by (simp add: Let_def)
qed

subsection \<open>Termination of the message buffer\<close>

lemma Log_message_terminated:
  "0 < n \<Longrightarrow> terminated n (snd (stbsp_vsnprintf (replicate n NUL) txt))"
  by (simp add: terminated_def stbsp_vsnprintf_length stbsp_vsnprintf_terminated)

lemma LogFmt_message_terminated:
  "0 < n \<Longrightarrow>
   terminated n ((fst (fmt_format_to_n (replicate n NUL) (n - 1) txt))
                   [min (n - 1) (snd (fmt_format_to_n (replicate n NUL) (n - 1) txt)) := NUL])"
  by (auto simp add: terminated_def fmt_format_to_n_length set_update_memI)

lemma apply_operation_terminated:
  assumes "0 < MaxMessageLength (fst st)" and "all_terminated st"
  shows "all_terminated (apply_operation op st) \<and>
         MaxMessageLength (fst (apply_operation op st)) = MaxMessageLength (fst st)"
proof (cases st)
  case (Pair lg calls)
  show ?thesis
  proof (cases op)
    case (OpLog d t)
    show ?thesis
    proof (cases "length (items (mQueue lg)) < capacity (mQueue lg)")
      case True
      with assms Pair OpLog Log_message_terminated [of "MaxMessageLength lg" t]
      show ?thesis
        by (auto simp add: all_terminated_def Log_free)
    next
      case False
      with assms Pair OpLog show ?thesis
        by (auto simp add: all_terminated_def Log_full)
    qed
  next
    case (OpLogFmt d t)
    show ?thesis
    proof (cases "length (items (mQueue lg)) < capacity (mQueue lg)")
      case True
      with assms Pair OpLogFmt LogFmt_message_terminated [of "MaxMessageLength lg" t]
      show ?thesis
        by (auto simp add: all_terminated_def LogFmt_free)
    next
      case False
      with assms Pair OpLogFmt show ?thesis
        by (auto simp add: all_terminated_def LogFmt_full)
    qed
  next
    case OpPrintAndClear
    with assms Pair show ?thesis
      by (auto simp add: all_terminated_def PrintAndClearLogQueue_record sink_call_of_def)
  qed
qed

lemma fold_apply_operation_terminated:
  "0 < MaxMessageLength (fst st) \<Longrightarrow> all_terminated st \<Longrightarrow>
   all_terminated (fold apply_operation ops st) \<and>
   MaxMessageLength (fst (fold apply_operation ops st)) = MaxMessageLength (fst st)"
proof (induction ops arbitrary: st)
  case Nil
  then show ?case by simp
next
  case (Cons op ops)
  from apply_operation_terminated [OF Cons.prems, of op]
  have 1: "all_terminated (apply_operation op st)"
    and 2: "MaxMessageLength (fst (apply_operation op st)) = MaxMessageLength (fst st)"
    by simp_all
  from Cons.prems(1) 2 have 3: "0 < MaxMessageLength (fst (apply_operation op st))"
    by simp
  from Cons.IH [OF 3 1] 2 show ?case by simp
qed

text \<open>
  C7. Starting from a new logger with a message array of at least one byte, after any sequence
  of \<^verbatim>\<open>Log\<close>, \<^verbatim>\<open>LogFmt\<close> and \<^verbatim>\<open>PrintAndClearLogQueue\<close> calls every record in
  the queue and every buffer that was handed to the sink has the full length of the array and
  holds a NUL: truncated or not, no message buffer is left unterminated.
\<close>

theorem message_always_terminated:
  assumes "0 < max_len"
  shows "all_terminated (fold apply_operation ops (Logger_new max_num max_len counter, []))"
proof -
  have init: "all_terminated (Logger_new max_num max_len counter, [])"
    by (simp add: all_terminated_def Logger_new_def spsc_queue_new_def)
  from assms have "0 < MaxMessageLength (fst (Logger_new max_num max_len counter, []))"
    by (simp add: Logger_new_def)
  from fold_apply_operation_terminated [OF this init] show ?thesis
    by (rule conjunct1)
qed

theorem message_always_terminated_witness:
  "0 < (4::nat)
   \<and> fold apply_operation
         [OpLog (1::nat) ''hello'', OpLogFmt 2 ''hey'', OpPrintAndClear,
          OpLogFmt 3 ''abcd'', OpLog 4 ''''] (Logger_new 3 4 0, [])
       = (\<lparr>MaxMessageLength = 4, SequenceNumber = 4,
           mQueue = \<lparr>capacity = 3,
                      items = [\<lparr>mLogData = 3, mSequenceNumber = 3, mMessage = ''abc'' @ [NUL]\<rparr>,
                               \<lparr>mLogData = 4, mSequenceNumber = 4,
                                 mMessage = [NUL, NUL, NUL, NUL]\<rparr>]\<rparr>\<rparr>,
          [(1, 1, ''%s'', ''hel'' @ [NUL]), (2, 2, ''%s'', ''hey'' @ [NUL])])
   \<and> all_terminated (fold apply_operation
         [OpLog (1::nat) ''hello'', OpLogFmt 2 ''hey'', OpPrintAndClear,
          OpLogFmt 3 ''abcd'', OpLog 4 ''''] (Logger_new 3 4 0, []))"
  using message_always_terminated
    [of 4 "[OpLog (1::nat) ''hello'', OpLogFmt 2 ''hey'', OpPrintAndClear,
          OpLogFmt 3 ''abcd'', OpLog 4 '''']" 3 0]
  by (simp add: Log_eval LogFmt_def fmt_format_to_n_def PrintAndClearLogQueue_record
      sink_call_of_def eval_nat_numeral)

subsection \<open>A run of the producer followed by a drain\<close>

lemma pushed_records_simps [simp]:
  "pushed_records [] rs = []"
  "pushed_records sts [] = []"
  "pushed_records (st # sts) (r # rs) =
     (if st \<noteq> Error_QueueFull then r # pushed_records sts rs else pushed_records sts rs)"
  by (simp_all add: pushed_records_def)

lemma set_pushed_records: "set (pushed_records sts rs) \<subseteq> set rs"
  by (auto simp add: pushed_records_def dest: set_zip_rightD)

lemma sorted_wrt_pushed_records:
  "sorted_wrt R rs \<Longrightarrow> sorted_wrt R (pushed_records sts rs)"
proof (induction rs arbitrary: sts)
  case Nil
  then show ?case by simp
next
  case (Cons r rs)
  show ?case
  proof (cases sts)
    case Nil
    then show ?thesis by simp
  next
    case (Cons st sts')
    with Cons.prems Cons.IH [of sts'] set_pushed_records [of sts' rs] show ?thesis
      by auto
  qed
qed

lemma length_pushed_records:
  "length sts = length rs \<Longrightarrow>
   length (pushed_records sts rs) = length (filter (\<lambda>st. st \<noteq> Error_QueueFull) sts)"
  by (induction sts rs rule: list_induct2) simp_all

lemma length_built_records [simp]:
  "length (built_records vsnprintf max_len counter cs) = length cs"
  by (induction cs arbitrary: counter) auto

lemma sink_call_seq_of [simp]: "sink_call_seq (sink_call_of v) = mSequenceNumber v"
  by (simp add: sink_call_seq_def sink_call_of_def)

lemma Log_calls_queue:
  "Log_calls vsnprintf cs lg = (sts, lg') \<Longrightarrow>
   length sts = length cs
   \<and> items (mQueue lg') = items (mQueue lg)
        @ pushed_records sts (built_records vsnprintf (MaxMessageLength lg) (SequenceNumber lg) cs)
   \<and> capacity (mQueue lg') = capacity (mQueue lg)
   \<and> MaxMessageLength lg' = MaxMessageLength lg
   \<and> SequenceNumber lg' = SequenceNumber lg + of_nat (length cs)"
proof (induction cs arbitrary: lg sts lg')
  case Nil
  then show ?case by simp
next
  case (Cons c cs)
  obtain d a where c: "c = (d, a)" by (cases c)
  obtain st lg1 where l1: "Log vsnprintf d a lg = (st, lg1)" by fastforce
  obtain sts1 lg2 where l2: "Log_calls vsnprintf cs lg1 = (sts1, lg2)" by fastforce
  from Cons.prems c l1 l2 have sts: "sts = st # sts1" and lg': "lg' = lg2"
    by simp_all
  note ih = Cons.IH [OF l2]
  show ?case
  proof (cases "length (items (mQueue lg)) < capacity (mQueue lg)")
    case True
    from l1 have "st = (if fst (vsnprintf (replicate (MaxMessageLength lg) NUL) a) < 0
         \<or> nat (fst (vsnprintf (replicate (MaxMessageLength lg) NUL) a)) \<ge> MaxMessageLength lg
      then Error_MessageTruncated else Success)"
      and "lg1 = lg\<lparr>SequenceNumber := SequenceNumber lg + 1,
         mQueue := (mQueue lg)\<lparr>items := items (mQueue lg) @
           [\<lparr>mLogData = d, mSequenceNumber = SequenceNumber lg + 1,
             mMessage = snd (vsnprintf (replicate (MaxMessageLength lg) NUL) a)\<rparr>]\<rparr>\<rparr>"
      by (simp_all add: Log_free [OF True])
    with ih sts lg' c show ?thesis
      by (simp add: add.assoc add.commute)
  next
    case False
    from l1 have "st = Error_QueueFull"
      and "lg1 = lg\<lparr>SequenceNumber := SequenceNumber lg + 1\<rparr>"
      by (simp_all add: Log_full [OF False])
    with ih sts lg' c show ?thesis
      by (simp add: add.assoc add.commute)
  qed
qed

lemma built_records_seq_above:
  "v \<in> set (built_records vsnprintf max_len counter cs) \<Longrightarrow>
   unat counter + length cs < 2 ^ 64 \<Longrightarrow> counter < mSequenceNumber v"
proof (induction cs arbitrary: counter)
  case Nil
  then show ?case by simp
next
  case (Cons c cs)
  obtain d a where c: "c = (d, a)" by (cases c)
  from Cons.prems(2) have "unat counter + 1 < 2 ^ 64" by simp
  then have u: "unat (counter + 1) = unat counter + 1"
    by (simp add: unat_add_lem [THEN iffD1])
  then have lt: "counter < counter + 1"
    by (simp add: word_less_nat_alt)
  show ?case
  proof (cases "v \<in> set (built_records vsnprintf max_len (counter + 1) cs)")
    case True
    from Cons.prems(2) u have "unat (counter + 1) + length cs < 2 ^ 64" by simp
    from Cons.IH [OF True this] lt show ?thesis by simp
  next
    case False
    with Cons.prems(1) c lt show ?thesis by simp
  qed
qed

lemma built_records_sorted:
  "unat counter + length cs < 2 ^ 64 \<Longrightarrow>
   sorted_wrt (\<lambda>v w. mSequenceNumber v < mSequenceNumber w)
     (built_records vsnprintf max_len counter cs)"
proof (induction cs arbitrary: counter)
  case Nil
  then show ?case by simp
next
  case (Cons c cs)
  obtain d a where c: "c = (d, a)" by (cases c)
  from Cons.prems have "unat counter + 1 < 2 ^ 64" by simp
  then have u: "unat (counter + 1) = unat counter + 1"
    by (simp add: unat_add_lem [THEN iffD1])
  with Cons.prems have b: "unat (counter + 1) + length cs < 2 ^ 64" by simp
  from Cons.IH [OF b] built_records_seq_above [OF _ b] c show ?case
    by simp
qed

text \<open>
  C1. After any sequence of \<^verbatim>\<open>Log\<close> calls on a new logger, one call of
  \<^verbatim>\<open>PrintAndClearLogQueue\<close> calls the sink once for each record whose call did not return
  \<^verbatim>\<open>Error_QueueFull\<close>, in the order of the calls, returns their number and leaves the queue
  empty. The sequence numbers that the sink sees are strictly increasing provided the 64-bit
  counter does not wrap around during the calls.
\<close>

theorem Log_calls_then_drain:
  assumes "Log_calls vsnprintf cs (Logger_new max_num max_len counter) = (sts, lg)"
    and "PrintAndClearLogQueue record_sink [] lg = (calls, numProcessed, lg')"
  shows "calls = map sink_call_of
                   (pushed_records sts (built_records vsnprintf max_len counter cs))
         \<and> numProcessed = int (length (filter (\<lambda>st. st \<noteq> Error_QueueFull) sts))
         \<and> items (mQueue lg') = []
         \<and> (unat counter + length cs < 2 ^ 64 \<longrightarrow> sorted_wrt (<) (map sink_call_seq calls))"
proof -
  let ?rs = "built_records vsnprintf max_len counter cs"
  from Log_calls_queue [OF assms(1)]
  have len: "length sts = length cs" and q: "items (mQueue lg) = pushed_records sts ?rs"
    by (simp_all add: Logger_new_def spsc_queue_new_def)
  from assms(2) q have calls: "calls = map sink_call_of (pushed_records sts ?rs)"
    and n: "numProcessed = int (length (pushed_records sts ?rs))"
    and e: "items (mQueue lg') = []"
    by (auto simp add: PrintAndClearLogQueue_record)
  from len have "length (pushed_records sts ?rs)
      = length (filter (\<lambda>st. st \<noteq> Error_QueueFull) sts)"
    by (simp add: length_pushed_records)
  with n have n': "numProcessed = int (length (filter (\<lambda>st. st \<noteq> Error_QueueFull) sts))"
    by simp
  have "sorted_wrt (<) (map sink_call_seq calls)" if "unat counter + length cs < 2 ^ 64"
  proof -
    from built_records_sorted [OF that]
    have "sorted_wrt (\<lambda>v w. mSequenceNumber v < mSequenceNumber w) (pushed_records sts ?rs)"
      by (rule sorted_wrt_pushed_records)
    with calls show ?thesis
      by (simp add: sorted_wrt_map)
  qed
  with calls n' e show ?thesis by simp
qed

theorem Log_calls_then_drain_witness:
  "Log_calls stbsp_vsnprintf [(0::nat, ''a''), (1, ''b''), (2, ''c'')] (Logger_new 2 4 0)
     = ([Success, Success, Error_QueueFull],
        \<lparr>MaxMessageLength = 4, SequenceNumber = 3,
         mQueue = \<lparr>capacity = 2,
                    items = [\<lparr>mLogData = 0, mSequenceNumber = 1, mMessage = ''a'' @ [NUL, NUL, NUL]\<rparr>,
                             \<lparr>mLogData = 1, mSequenceNumber = 2, mMessage = ''b'' @ [NUL, NUL, NUL]\<rparr>]\<rparr>\<rparr>)
   \<and> PrintAndClearLogQueue record_sink []
        \<lparr>MaxMessageLength = 4, SequenceNumber = 3,
         mQueue = \<lparr>capacity = 2,
                    items = [\<lparr>mLogData = 0::nat, mSequenceNumber = 1, mMessage = ''a'' @ [NUL, NUL, NUL]\<rparr>,
                             \<lparr>mLogData = 1, mSequenceNumber = 2, mMessage = ''b'' @ [NUL, NUL, NUL]\<rparr>]\<rparr>\<rparr>
     = ([(0, 1, ''%s'', ''a'' @ [NUL, NUL, NUL]), (1, 2, ''%s'', ''b'' @ [NUL, NUL, NUL])], 2,
        \<lparr>MaxMessageLength = 4, SequenceNumber = 3, mQueue = \<lparr>capacity = 2, items = []\<rparr>\<rparr>)
   \<and> [(0::nat, 1::64 word, ''%s'', ''a'' @ [NUL, NUL, NUL]), (1, 2, ''%s'', ''b'' @ [NUL, NUL, NUL])]
       = map sink_call_of (pushed_records [Success, Success, Error_QueueFull]
           (built_records stbsp_vsnprintf 4 0 [(0::nat, ''a''), (1, ''b''), (2, ''c'')]))
   \<and> (2::int) = int (length (filter (\<lambda>st. st \<noteq> Error_QueueFull)
                                [Success, Success, Error_QueueFull]))
   \<and> unat (0::64 word) + length [(0::nat, ''a''), (1, ''b''), (2, ''c'')] < 2 ^ 64
   \<and> sorted_wrt (<) (map sink_call_seq
         [(0::nat, 1::64 word, ''%s'', ''a'' @ [NUL, NUL, NUL]), (1, 2, ''%s'', ''b'' @ [NUL, NUL, NUL])])"
proof -
  let ?lg = "\<lparr>MaxMessageLength = 4, SequenceNumber = 3,
         mQueue = \<lparr>capacity = 2,
                    items = [\<lparr>mLogData = 0::nat, mSequenceNumber = 1, mMessage = ''a'' @ [NUL, NUL, NUL]\<rparr>,
                             \<lparr>mLogData = 1, mSequenceNumber = 2, mMessage = ''b'' @ [NUL, NUL, NUL]\<rparr>]\<rparr>\<rparr>"
  have calls: "Log_calls stbsp_vsnprintf [(0::nat, ''a''), (1, ''b''), (2, ''c'')] (Logger_new 2 4 0)
     = ([Success, Success, Error_QueueFull], ?lg)"
    by (simp add: Log_eval eval_nat_numeral)
  have drain: "PrintAndClearLogQueue record_sink [] ?lg
     = ([(0, 1, ''%s'', ''a'' @ [NUL, NUL, NUL]), (1, 2, ''%s'', ''b'' @ [NUL, NUL, NUL])], 2,
        \<lparr>MaxMessageLength = 4, SequenceNumber = 3, mQueue = \<lparr>capacity = 2, items = []\<rparr>\<rparr>)"
    by (simp add: PrintAndClearLogQueue_record sink_call_of_def)
  from Log_calls_then_drain [OF calls drain] calls drain show ?thesis
    by simp
qed

text \<open>
  Without that proviso the sequence numbers need not increase: with the counter at
  \<open>2 ^ 64 - 2\<close>, two calls that both succeed are numbered \<open>2 ^ 64 - 1\<close> and \<open>0\<close>.
\<close>

theorem sequence_number_wraps_counterexample:
  "fst (Log_calls stbsp_vsnprintf [(0::nat, ''a''), (1, ''b'')] (Logger_new 2 4 (- 2)))
     = [Success, Success]
   \<and> map sink_call_seq (fst (PrintAndClearLogQueue record_sink []
        (snd (Log_calls stbsp_vsnprintf [(0::nat, ''a''), (1, ''b'')] (Logger_new 2 4 (- 2))))))
     = [18446744073709551615, 0]
   \<and> \<not> sorted_wrt (<) (map sink_call_seq (fst (PrintAndClearLogQueue record_sink []
        (snd (Log_calls stbsp_vsnprintf [(0::nat, ''a''), (1, ''b'')] (Logger_new 2 4 (- 2)))))))"
  by (simp add: Log_eval PrintAndClearLogQueue_record)

subsection \<open>The processing thread\<close>

lemma pop_and_print_None:
  "items (mQueue (mLogger t)) = [] \<Longrightarrow> pop_and_print f t = None"
  by (simp add: pop_and_print_def pop_def)

lemma pop_and_print_Some:
  "items (mQueue (mLogger t)) = v # vs \<Longrightarrow>
   pop_and_print f t =
     Some (t\<lparr>mPrintFn := f (mLogData v) (mSequenceNumber v) ''%s'' (mMessage v) (mPrintFn t),
             mLogger := (mLogger t)\<lparr>mQueue := (mQueue (mLogger t))\<lparr>items := vs\<rparr>\<rparr>\<rparr>)"
  by (simp add: pop_and_print_def pop_def)

lemma steps_to_exit_0: "steps_to_exit t = 0 \<Longrightarrow> loc t = Exited"
  by (cases "loc t") (simp_all add: steps_to_exit_def Let_def split: if_splits)

lemma steps_to_exit_step:
  assumes "\<not> mShouldRun t" and "steps_to_exit t = Suc k"
  shows "steps_to_exit (ThreadMain_step f t) = k \<and> \<not> mShouldRun (ThreadMain_step f t)"
proof (cases "items (mQueue (mLogger t))")
  case Nil
  with assms show ?thesis
    by (cases "loc t")
      (auto simp add: steps_to_exit_def ThreadMain_step_def sleep_for_def pop_and_print_None)
next
  case (Cons v vs)
  with assms show ?thesis
    by (cases "loc t")
      (auto simp add: steps_to_exit_def ThreadMain_step_def sleep_for_def pop_and_print_Some)
qed

lemma ThreadMain_exits:
  "\<not> mShouldRun t \<Longrightarrow> steps_to_exit t = k \<Longrightarrow> loc ((ThreadMain_step f ^^ k) t) = Exited"
proof (induction k arbitrary: t)
  case 0
  then show ?case by (simp add: steps_to_exit_0)
next
  case (Suc k)
  from steps_to_exit_step [OF Suc.prems, of f]
  have "steps_to_exit (ThreadMain_step f t) = k" and "\<not> mShouldRun (ThreadMain_step f t)"
    by simp_all
  from Suc.IH [OF this(2) this(1)] show ?case
    by (simp add: funpow_swap1)
qed

lemma run_append: "run (xs @ ys) s = run ys (run xs s)"
  by (simp add: run_def)

lemma run_thread_steps:
  "run (replicate k ThreadStep) s = s\<lparr>thread := (ThreadMain_step record_sink ^^ k) (thread s)\<rparr>"
  by (induction k arbitrary: s) (simp_all add: run_def funpow_swap1)

lemma run_invariant:
  assumes "P s" and "\<And>a s. a \<in> set acts \<Longrightarrow> P s \<Longrightarrow> P (system_step a s)"
  shows "P (run acts s)"
  using assms by (induction acts arbitrary: s) (simp_all add: run_def)

lemma producer_step_frame:
  "mPrintFn (thread (producer_step call s)) = mPrintFn (thread s)"
  "loc (thread (producer_step call s)) = loc (thread s)"
  "trace (thread (producer_step call s)) = trace (thread s)"
  "mShouldRun (thread (producer_step call s)) = mShouldRun (thread s)"
  by (simp_all add: producer_step_def Let_def)

lemma producer_step_effect:
  assumes "items (mQueue (snd (call (mLogger (thread s))))) = items (mQueue (mLogger (thread s))) @ new"
  shows "enqueued (producer_step call s) = enqueued s @ new"
    and "items (mQueue (mLogger (thread (producer_step call s))))
           = items (mQueue (mLogger (thread s))) @ new"
    and "mPrintFn (thread (producer_step call s)) = mPrintFn (thread s)"
    and "loc (thread (producer_step call s)) = loc (thread s)"
    and "trace (thread (producer_step call s)) = trace (thread s)"
    and "mShouldRun (thread (producer_step call s)) = mShouldRun (thread s)"
  using assms by (simp_all add: producer_step_def Let_def)

lemma producer_step_conserved:
  assumes "\<exists>new. items (mQueue (snd (call (mLogger (thread s)))))
             = items (mQueue (mLogger (thread s))) @ new"
    and "conserved s"
  shows "conserved (producer_step call s)"
proof -
  from assms(1) obtain new where new:
    "items (mQueue (snd (call (mLogger (thread s))))) = items (mQueue (mLogger (thread s))) @ new"
    by blast
  note eff = producer_step_effect [of call s new, OF new]
  from eff(1-3) assms(2) show ?thesis
    by (simp add: conserved_def)
qed

lemma ThreadMain_step_conserved:
  assumes "conserved s"
  shows "conserved (s\<lparr>thread := ThreadMain_step record_sink (thread s)\<rparr>)"
proof (cases "items (mQueue (mLogger (thread s)))")
  case Nil
  with assms show ?thesis
    by (cases "loc (thread s)")
      (auto simp add: conserved_def ThreadMain_step_def sleep_for_def pop_and_print_None)
next
  case (Cons v vs)
  with assms show ?thesis
    by (cases "loc (thread s)")
      (auto simp add: conserved_def ThreadMain_step_def sleep_for_def pop_and_print_Some
        record_sink_def sink_call_of_def)
qed

lemma system_step_conserved: "conserved s \<Longrightarrow> conserved (system_step a s)"
  by (cases a)
    (simp_all add: ThreadMain_step_conserved producer_step_conserved Log_items LogFmt_items,
      simp add: conserved_def Stop_def)

lemma since_stop_seen_snoc:
  "since_stop_seen tr = [] \<Longrightarrow> since_stop_seen (tr @ es) = since_stop_seen es"
  "since_stop_seen tr \<noteq> [] \<Longrightarrow> since_stop_seen (tr @ es) = since_stop_seen tr @ es"
  by (auto simp add: since_stop_seen_def dropWhile_append dropWhile_eq_Nil_conv)

lemma ThreadMain_step_trace_inv:
  assumes "trace_inv t"
  shows "trace_inv (ThreadMain_step f t)"
proof (cases "items (mQueue (mLogger t))")
  case Nil
  with assms show ?thesis
    by (cases "loc t")
      (auto simp add: trace_inv_def ThreadMain_step_def sleep_for_def pop_and_print_None
        since_stop_seen_snoc, simp_all add: since_stop_seen_def)
next
  case (Cons v vs)
  with assms show ?thesis
    by (cases "loc t")
      (auto simp add: trace_inv_def ThreadMain_step_def sleep_for_def pop_and_print_Some
        since_stop_seen_snoc, simp_all add: since_stop_seen_def)
qed

lemma trace_inv_frame:
  "loc t' = loc t \<Longrightarrow> trace t' = trace t \<Longrightarrow> trace_inv t' = trace_inv t"
  by (simp add: trace_inv_def)

lemma producer_step_trace_inv:
  "trace_inv (thread (producer_step call s)) = trace_inv (thread s)"
  by (rule trace_inv_frame) (simp_all add: producer_step_frame)

lemma Stop_trace_inv: "trace_inv (Stop t) = trace_inv t"
  by (rule trace_inv_frame) (simp_all add: Stop_def)

lemma system_step_trace_inv: "trace_inv (thread s) \<Longrightarrow> trace_inv (thread (system_step a s))"
  by (cases a)
    (simp_all add: ThreadMain_step_trace_inv producer_step_trace_inv Stop_trace_inv)

lemma ThreadMain_step_in_loop:
  "mShouldRun t \<Longrightarrow> in_loop t \<Longrightarrow>
   mShouldRun (ThreadMain_step f t) \<and> in_loop (ThreadMain_step f t)"
  by (cases "loc t"; cases "items (mQueue (mLogger t))")
    (auto simp add: in_loop_def ThreadMain_step_def sleep_for_def pop_and_print_None
      pop_and_print_Some)

lemma system_step_in_loop:
  assumes "a \<noteq> StopCall" and "mShouldRun (thread s) \<and> in_loop (thread s)"
  shows "mShouldRun (thread (system_step a s)) \<and> in_loop (thread (system_step a s))"
  using assms
  by (cases a) (simp_all add: ThreadMain_step_in_loop, simp_all add: in_loop_def producer_step_frame)

lemma ThreadMain_step_flushed:
  assumes "flushed rs s"
  shows "flushed rs (s\<lparr>thread := ThreadMain_step record_sink (thread s)\<rparr>)"
proof -
  from assms have c: "conserved s" by (simp add: flushed_def)
  note c' = ThreadMain_step_conserved [OF c]
  show ?thesis
  proof (cases "items (mQueue (mLogger (thread s)))")
    case Nil
    with c have "length (mPrintFn (thread s)) = length (enqueued s)"
      by (simp add: conserved_def) (metis length_map)
    moreover from assms have "length rs \<le> length (enqueued s)"
      by (auto simp add: flushed_def prefix_def)
    ultimately show ?thesis
      using assms c' Nil
      by (cases "loc (thread s)")
        (auto simp add: flushed_def ThreadMain_step_def sleep_for_def pop_and_print_None)
  next
    case (Cons v vs)
    with assms c' show ?thesis
      by (cases "loc (thread s)")
        (auto simp add: flushed_def ThreadMain_step_def sleep_for_def pop_and_print_Some
          record_sink_def)
  qed
qed

lemma producer_step_flushed:
  assumes "\<exists>new. items (mQueue (snd (call (mLogger (thread s)))))
             = items (mQueue (mLogger (thread s))) @ new"
    and "flushed rs s"
  shows "flushed rs (producer_step call s)"
proof -
  from assms(1) obtain new where new:
    "items (mQueue (snd (call (mLogger (thread s))))) = items (mQueue (mLogger (thread s))) @ new"
    by blast
  note eff = producer_step_effect [of call s new, OF new]
  from assms(2) have "conserved (producer_step call s)"
    using producer_step_conserved [of call s, OF assms(1)] by (simp add: flushed_def)
  with eff assms(2) show ?thesis
    by (simp add: flushed_def)
qed

lemma system_step_flushed: "flushed rs s \<Longrightarrow> flushed rs (system_step a s)"
  by (cases a)
    (simp_all add: ThreadMain_step_flushed producer_step_flushed Log_items LogFmt_items,
      simp add: flushed_def conserved_def Stop_def)

lemma flushed_delivered:
  assumes "flushed rs s" and "loc (thread s) = Exited"
  shows "prefix (map sink_call_of rs) (mPrintFn (thread s))"
proof -
  from assms(1) have "prefix (map sink_call_of rs) (map sink_call_of (enqueued s))"
    by (simp add: flushed_def map_mono_prefix)
  moreover from assms(1) have "prefix (mPrintFn (thread s)) (map sink_call_of (enqueued s))"
    by (simp add: flushed_def conserved_def)
  moreover from assms have "length (map sink_call_of rs) \<le> length (mPrintFn (thread s))"
    by (simp add: flushed_def)
  ultimately show ?thesis
    by (rule prefix_length_prefix)
qed

lemmas thread_eval = ThreadMain_step_def LogProcessingThread_new_def pop_and_print_def pop_def
  sleep_for_def record_sink_def

lemmas system_eval = run_def system_new_def producer_step_def Stop_def thread_eval Log_eval





subsection \<open>Stopping the thread\<close>

lemma run_conserved: "conserved s \<Longrightarrow> conserved (run acts s)"
  by (rule run_invariant) (simp_all add: system_step_conserved)

lemma run_trace_inv:
  fixes s :: "'d system"
  shows "trace_inv (thread s) \<Longrightarrow> trace_inv (thread (run acts s))"
  by (rule run_invariant [where P = "\<lambda>s :: 'd system. trace_inv (thread s)"])
    (simp_all add: system_step_trace_inv)

lemma run_flushed: "flushed rs s \<Longrightarrow> flushed rs (run acts s)"
  by (rule run_invariant) (simp_all add: system_step_flushed)

lemma run_in_loop:
  fixes s :: "'d system"
  assumes "StopCall \<notin> set acts" and "mShouldRun (thread s) \<and> in_loop (thread s)"
  shows "mShouldRun (thread (run acts s)) \<and> in_loop (thread (run acts s))"
proof (rule run_invariant
    [where P = "\<lambda>s :: 'd system. mShouldRun (thread s) \<and> in_loop (thread s)"])
  show "mShouldRun (thread s) \<and> in_loop (thread s)" by (rule assms(2))
next
  fix a and s' :: "'d system"
  assume "a \<in> set acts" and "mShouldRun (thread s') \<and> in_loop (thread s')"
  with assms(1) show "mShouldRun (thread (system_step a s')) \<and> in_loop (thread (system_step a s'))"
    by (intro system_step_in_loop) auto
qed

lemma system_new_invariants:
  "conserved (system_new lg w)" "trace_inv (thread (system_new lg w))"
  "mShouldRun (thread (system_new lg w)) \<and> in_loop (thread (system_new lg w))"
  by (simp_all add: system_new_def LogProcessingThread_new_def conserved_def trace_inv_def
      in_loop_def since_stop_seen_def)

lemma Stop_flushed:
  assumes "conserved s" and "in_loop (thread s)"
  shows "flushed (enqueued s) (system_step StopCall s)"
  using assms
  by (cases "loc (thread s)") (simp_all add: flushed_def conserved_def in_loop_def Stop_def)

lemma exited_trace:
  "trace_inv t \<Longrightarrow> loc t = Exited \<Longrightarrow>
   \<exists>n. since_stop_seen (trace t) = [Load False, DrainCall, DrainReturn n]"
  by (simp add: trace_inv_def)

lemma flushed_stays_stopped: "flushed rs s \<Longrightarrow> \<not> mShouldRun (thread s)"
  by (simp add: flushed_def)

lemma final_drain_steps:
  "loc t = InFinalDrain n \<Longrightarrow>
   (ThreadMain_step f ^^ length (items (mQueue (mLogger t)))) t
     = t\<lparr>mPrintFn := fst (drain_loop f (mPrintFn t) n (mQueue (mLogger t))),
         mLogger := (mLogger t)\<lparr>mQueue := snd (snd (drain_loop f (mPrintFn t) n (mQueue (mLogger t))))\<rparr>,
         loc := InFinalDrain (fst (snd (drain_loop f (mPrintFn t) n (mQueue (mLogger t)))))\<rparr>"
proof (induction "items (mQueue (mLogger t))" arbitrary: t n)
  case Nil
  from Nil(1) [symmetric] Nil(2) show ?case
    by (simp add: drain_loop_fold)
next
  case (Cons v vs)
  define t1 where "t1 = ThreadMain_step f t"
  from Cons(2) [symmetric] Cons(3)
  have t1: "t1 = t\<lparr>mPrintFn := f (mLogData v) (mSequenceNumber v) ''%s'' (mMessage v) (mPrintFn t),
             mLogger := (mLogger t)\<lparr>mQueue := (mQueue (mLogger t))\<lparr>items := vs\<rparr>\<rparr>,
             loc := InFinalDrain (n + 1)\<rparr>"
    by (simp add: t1_def ThreadMain_step_def pop_and_print_Some)
  then have vs: "vs = items (mQueue (mLogger t1))" and l: "loc t1 = InFinalDrain (n + 1)"
    by simp_all
  from Cons(1) [OF vs l] Cons(2) [symmetric] t1
  have "(ThreadMain_step f ^^ length vs) t1
      = t\<lparr>mPrintFn := fst (drain_loop f (mPrintFn t) n (mQueue (mLogger t))),
         mLogger := (mLogger t)\<lparr>mQueue := snd (snd (drain_loop f (mPrintFn t) n (mQueue (mLogger t))))\<rparr>,
         loc := InFinalDrain (fst (snd (drain_loop f (mPrintFn t) n (mQueue (mLogger t)))))\<rparr>"
    by (simp add: drain_loop_fold)
  with Cons(2) [symmetric] show ?case
    by (simp add: funpow_swap1 t1_def)
qed

lemma ThreadMain_final_pass:
  assumes "loc t = AtLoopTest" and "\<not> mShouldRun t"
    and "PrintAndClearLogQueue printLogFn (mPrintFn t) (mLogger t) = (s', numProcessed, lg')"
  shows "steps_to_exit t = nat numProcessed + 2"
    and "(ThreadMain_step printLogFn ^^ (nat numProcessed + 2)) t
           = t\<lparr>mPrintFn := s', mLogger := lg', loc := Exited,
               trace := trace t @ [Load False, DrainCall, DrainReturn numProcessed]\<rparr>"
proof -
  define k where "k = length (items (mQueue (mLogger t)))"
  define t1 where "t1 = ThreadMain_step printLogFn t"
  define t2 where "t2 = (ThreadMain_step printLogFn ^^ k) t1"
  from assms(1,2) have t1: "t1 = t\<lparr>loc := InFinalDrain 0, trace := trace t @ [Load False, DrainCall]\<rparr>"
    by (simp add: t1_def ThreadMain_step_def)
  from assms(3) have n: "numProcessed = int k"
    and s': "s' = fst (drain_loop printLogFn (mPrintFn t) 0 (mQueue (mLogger t)))"
    and lg': "lg' = (mLogger t)\<lparr>mQueue := (mQueue (mLogger t))\<lparr>items := []\<rparr>\<rparr>"
    by (auto simp add: k_def PrintAndClearLogQueue_def drain_loop_fold)
  from assms(1) n show "steps_to_exit t = nat numProcessed + 2"
    by (simp add: steps_to_exit_def k_def)
  from t1 have l1: "loc t1 = InFinalDrain 0" and k1: "length (items (mQueue (mLogger t1))) = k"
    by (simp_all add: k_def)
  from final_drain_steps [OF l1, of printLogFn] k1
  have "t2 = t1\<lparr>mPrintFn := fst (drain_loop printLogFn (mPrintFn t1) 0 (mQueue (mLogger t1))),
         mLogger := (mLogger t1)\<lparr>mQueue :=
            snd (snd (drain_loop printLogFn (mPrintFn t1) 0 (mQueue (mLogger t1))))\<rparr>,
         loc := InFinalDrain (fst (snd (drain_loop printLogFn (mPrintFn t1) 0 (mQueue (mLogger t1)))))\<rparr>"
    by (simp add: t2_def)
  with t1 s' lg' n have t2: "t2 = t\<lparr>mPrintFn := s', mLogger := lg', loc := InFinalDrain numProcessed,
                    trace := trace t @ [Load False, DrainCall]\<rparr>"
    by (simp add: drain_loop_fold k_def)
  then have "items (mQueue (mLogger t2)) = []" and "loc t2 = InFinalDrain numProcessed"
    by (simp_all add: lg')
  then have "ThreadMain_step printLogFn t2
      = t2\<lparr>loc := Exited, trace := trace t2 @ [DrainReturn numProcessed]\<rparr>"
    by (simp add: ThreadMain_step_def pop_and_print_None)
  with t2 have t3: "ThreadMain_step printLogFn t2 = t\<lparr>mPrintFn := s', mLogger := lg', loc := Exited,
          trace := trace t @ [Load False, DrainCall, DrainReturn numProcessed]\<rparr>"
    by simp
  have "(ThreadMain_step printLogFn ^^ (nat numProcessed + 2)) t = ThreadMain_step printLogFn t2"
    using n by (simp add: t2_def t1_def funpow_swap1)
  with t3 show "(ThreadMain_step printLogFn ^^ (nat numProcessed + 2)) t
           = t\<lparr>mPrintFn := s', mLogger := lg', loc := Exited,
               trace := trace t @ [Load False, DrainCall, DrainReturn numProcessed]\<rparr>"
    by simp
qed

lemma funpow_invariant:
  assumes "P x" and "\<And>y. P y \<Longrightarrow> P (f y)"
  shows "P ((f ^^ n) x)"
  using assms by (induction n) simp_all

lemma ThreadMain_step_drains:
  assumes "mPrintFn t @ map sink_call_of (items (mQueue (mLogger t))) = c
           \<and> (mLogger t)\<lparr>mQueue := (mQueue (mLogger t))\<lparr>items := []\<rparr>\<rparr> = lg0
           \<and> (loc t = Exited \<longrightarrow> items (mQueue (mLogger t)) = [])"
  shows "mPrintFn (ThreadMain_step record_sink t)
             @ map sink_call_of (items (mQueue (mLogger (ThreadMain_step record_sink t)))) = c
         \<and> (mLogger (ThreadMain_step record_sink t))
              \<lparr>mQueue := (mQueue (mLogger (ThreadMain_step record_sink t)))\<lparr>items := []\<rparr>\<rparr> = lg0
         \<and> (loc (ThreadMain_step record_sink t) = Exited
              \<longrightarrow> items (mQueue (mLogger (ThreadMain_step record_sink t))) = [])"
proof (cases "items (mQueue (mLogger t))")
  case Nil
  with assms show ?thesis
    by (cases "loc t")
      (auto simp add: ThreadMain_step_def sleep_for_def pop_and_print_None)
next
  case (Cons v vs)
  with assms show ?thesis
    by (cases "loc t")
      (auto simp add: ThreadMain_step_def sleep_for_def pop_and_print_Some
        record_sink_def sink_call_of_def)
qed

lemma ThreadMain_delivers_queue:
  assumes "\<not> mShouldRun t" and "loc t \<noteq> Exited"
    and "PrintAndClearLogQueue record_sink (mPrintFn t) (mLogger t) = (calls, numProcessed, lg')"
  shows "mPrintFn ((ThreadMain_step record_sink ^^ steps_to_exit t) t) = calls
         \<and> mLogger ((ThreadMain_step record_sink ^^ steps_to_exit t) t) = lg'"
proof -
  define t' where "t' = (ThreadMain_step record_sink ^^ steps_to_exit t) t"
  from assms(3) have calls: "calls = mPrintFn t @ map sink_call_of (items (mQueue (mLogger t)))"
    and lg': "lg' = (mLogger t)\<lparr>mQueue := (mQueue (mLogger t))\<lparr>items := []\<rparr>\<rparr>"
    by (simp_all add: PrintAndClearLogQueue_record)
  have "mPrintFn t' @ map sink_call_of (items (mQueue (mLogger t'))) = calls
         \<and> (mLogger t')\<lparr>mQueue := (mQueue (mLogger t'))\<lparr>items := []\<rparr>\<rparr> = lg'
         \<and> (loc t' = Exited \<longrightarrow> items (mQueue (mLogger t')) = [])"
    unfolding t'_def
    by (rule funpow_invariant
        [where P = "\<lambda>u. mPrintFn u @ map sink_call_of (items (mQueue (mLogger u))) = calls
           \<and> (mLogger u)\<lparr>mQueue := (mQueue (mLogger u))\<lparr>items := []\<rparr>\<rparr> = lg'
           \<and> (loc u = Exited \<longrightarrow> items (mQueue (mLogger u)) = [])"])
      (simp add: calls lg' assms(2), rule ThreadMain_step_drains)
  moreover from assms(1) have "loc t' = Exited"
    unfolding t'_def by (rule ThreadMain_exits) simp
  ultimately have e: "items (mQueue (mLogger t')) = []" and c: "mPrintFn t' = calls"
    and l: "(mLogger t')\<lparr>mQueue := (mQueue (mLogger t'))\<lparr>items := []\<rparr>\<rparr> = lg'"
    by auto
  from e have "(mQueue (mLogger t'))\<lparr>items := []\<rparr> = mQueue (mLogger t')"
    by (cases "mQueue (mLogger t')") simp
  with l have "mLogger t' = lg'"
    by simp
  with c show ?thesis
    by (simp add: t'_def)
qed

lemma system_step_exited:
  "loc (thread s) = Exited \<Longrightarrow> loc (thread (system_step a s)) = Exited"
  by (cases a) (simp_all add: ThreadMain_step_def producer_step_frame Stop_def)

lemma run_exited: "loc (thread s) = Exited \<Longrightarrow> loc (thread (run acts s)) = Exited"
  by (rule run_invariant [where P = "\<lambda>s :: 'd system. loc (thread s) = Exited"])
    (simp_all add: system_step_exited)

lemma Log_items_one:
  "\<exists>new. items (mQueue (snd (Log f d a lg))) = items (mQueue lg) @ new \<and> length new \<le> 1"
  by (cases "length (items (mQueue lg)) < capacity (mQueue lg)") (simp_all add: Log_free Log_full)

lemma LogFmt_items_one:
  "\<exists>new. items (mQueue (snd (LogFmt f d a lg))) = items (mQueue lg) @ new \<and> length new \<le> 1"
  by (cases "length (items (mQueue lg)) < capacity (mQueue lg)")
    (simp_all add: LogFmt_free LogFmt_full)

lemma producer_step_steps_to_exit:
  assumes "\<exists>new. items (mQueue (snd (call (mLogger (thread s)))))
             = items (mQueue (mLogger (thread s))) @ new \<and> length new \<le> 1"
  shows "steps_to_exit (thread (producer_step call s)) \<le> steps_to_exit (thread s) + 2"
proof -
  from assms obtain new where new:
    "items (mQueue (snd (call (mLogger (thread s))))) = items (mQueue (mLogger (thread s))) @ new"
    and len: "length new \<le> 1"
    by blast
  note eff = producer_step_effect [of call s new, OF new]
  from eff(2,4) len show ?thesis
    by (cases "loc (thread s)") (auto simp add: steps_to_exit_def Let_def)
qed

lemma system_step_stopped:
  "\<not> mShouldRun (thread s) \<Longrightarrow> \<not> mShouldRun (thread (system_step a s))"
proof (cases a)
  case ThreadStep
  moreover have "mShouldRun (ThreadMain_step record_sink (thread s)) = mShouldRun (thread s)"
    by (cases "loc (thread s)"; cases "items (mQueue (mLogger (thread s)))")
      (simp_all add: ThreadMain_step_def sleep_for_def pop_and_print_None pop_and_print_Some)
  ultimately show "\<not> mShouldRun (thread s) \<Longrightarrow> ?thesis" by simp
qed (simp_all add: producer_step_frame Stop_def)

lemma run_exits:
  "\<not> mShouldRun (thread s) \<Longrightarrow>
   steps_to_exit (thread s) + 2 * length (filter (\<lambda>a. a \<noteq> ThreadStep) further)
     \<le> length (filter (\<lambda>a. a = ThreadStep) further) \<Longrightarrow>
   loc (thread (run further s)) = Exited"
proof (induction further arbitrary: s)
  case Nil
  then show ?case by (simp add: run_def steps_to_exit_0)
next
  case (Cons a further)
  note stopped = system_step_stopped [OF Cons.prems(1), of a]
  have run_Cons: "run (a # further) s = run further (system_step a s)"
    by (simp add: run_def)
  show ?case
  proof (cases a)
    case ThreadStep
    show ?thesis
    proof (cases "steps_to_exit (thread s)")
      case 0
      then have "loc (thread s) = Exited" by (rule steps_to_exit_0)
      then show ?thesis by (rule run_exited)
    next
      case (Suc m)
      from steps_to_exit_step [OF Cons.prems(1) Suc, of record_sink] ThreadStep
      have "steps_to_exit (thread (system_step a s)) = m" by simp
      with Cons.prems(2) Suc ThreadStep
      have "steps_to_exit (thread (system_step a s))
              + 2 * length (filter (\<lambda>a. a \<noteq> ThreadStep) further)
            \<le> length (filter (\<lambda>a. a = ThreadStep) further)"
        by simp
      from Cons.IH [OF stopped this] show ?thesis by (simp add: run_Cons)
    qed
  next
    case (ProducerLog d t)
    with producer_step_steps_to_exit [of "Log stbsp_vsnprintf d t" s, OF Log_items_one]
    have "steps_to_exit (thread (system_step a s)) \<le> steps_to_exit (thread s) + 2"
      by simp
    with Cons.prems(2) ProducerLog
    have "steps_to_exit (thread (system_step a s))
              + 2 * length (filter (\<lambda>a. a \<noteq> ThreadStep) further)
            \<le> length (filter (\<lambda>a. a = ThreadStep) further)"
      by simp
    from Cons.IH [OF stopped this] show ?thesis by (simp add: run_Cons)
  next
    case (ProducerLogFmt d t)
    with producer_step_steps_to_exit [of "LogFmt fmt_format_to_n d t" s, OF LogFmt_items_one]
    have "steps_to_exit (thread (system_step a s)) \<le> steps_to_exit (thread s) + 2"
      by simp
    with Cons.prems(2) ProducerLogFmt
    have "steps_to_exit (thread (system_step a s))
              + 2 * length (filter (\<lambda>a. a \<noteq> ThreadStep) further)
            \<le> length (filter (\<lambda>a. a = ThreadStep) further)"
      by simp
    from Cons.IH [OF stopped this] show ?thesis by (simp add: run_Cons)
  next
    case StopCall
    then have "steps_to_exit (thread (system_step a s)) = steps_to_exit (thread s)"
      by (simp add: steps_to_exit_def Stop_def)
    with Cons.prems(2) StopCall
    have "steps_to_exit (thread (system_step a s))
              + 2 * length (filter (\<lambda>a. a \<noteq> ThreadStep) further)
            \<le> length (filter (\<lambda>a. a = ThreadStep) further)"
      by simp
    from Cons.IH [OF stopped this] show ?thesis by (simp add: run_Cons)
  qed
qed

text \<open>
  C4. Let \<^verbatim>\<open>Stop\<close> be called for the first time after any interleaving \<open>before\<close> of
  thread steps and producer calls, and let any interleaving \<open>after\<close> follow; \<open>s2\<close> is the
  state reached, and \<open>calls\<close>, \<open>numProcessed\<close> and \<open>lg'\<close> are what
  \<^verbatim>\<open>PrintAndClearLogQueue\<close> computes from the sink and the logger of \<open>s2\<close>.
  \<^item> If the thread stands at the loop test in \<open>s2\<close>, its next \<open>numProcessed + 2\<close> steps
    are the load that sees the flag down, exactly one drain, which leaves the sink and the logger
    as \<^verbatim>\<open>PrintAndClearLogQueue\<close> does and returns its count, and the return of
    \<^verbatim>\<open>ThreadMain\<close>.
  \<^item> Wherever the thread stands in \<open>s2\<close>, \<open>steps_to_exit\<close> steps of its own make it
    return; unless it had returned before, the sink and the logger are then those that
    \<^verbatim>\<open>PrintAndClearLogQueue\<close> leaves, and every record that the queue had accepted before
    \<^verbatim>\<open>Stop\<close> was called has been handed to the sink, in order.
  \<^item> In every interleaving: once the thread has returned, every record that the queue had
    accepted before \<^verbatim>\<open>Stop\<close> was called has been handed to the sink, in order, and what
    the thread did from the load that saw the flag down is that load, one drain call and its
    return.
  \<^item> Every continuation \<open>further\<close> in which the thread takes \<open>steps_to_exit\<close> steps and
    two more for each action of the producer or of \<^verbatim>\<open>Stop\<close> ends with the thread returned.
  The destructor, which calls \<^verbatim>\<open>Stop\<close> and then joins the thread, relies on this.
\<close>

theorem Stop_flushes_queue:
  assumes "StopCall \<notin> set before"
    and "s1 = run before (system_new lg waitTime)"
    and "s2 = run (StopCall # after) s1"
    and "PrintAndClearLogQueue record_sink (mPrintFn (thread s2)) (mLogger (thread s2))
           = (calls, numProcessed, lg')"
    and "s3 = run (replicate (steps_to_exit (thread s2)) ThreadStep) s2"
  shows "(loc (thread s2) = AtLoopTest \<longrightarrow>
            steps_to_exit (thread s2) = nat numProcessed + 2
            \<and> thread s3 = (thread s2)\<lparr>mPrintFn := calls, mLogger := lg', loc := Exited,
                  trace := trace (thread s2) @ [Load False, DrainCall, DrainReturn numProcessed]\<rparr>)
         \<and> loc (thread s3) = Exited
         \<and> (loc (thread s2) \<noteq> Exited \<longrightarrow>
               mPrintFn (thread s3) = calls \<and> mLogger (thread s3) = lg'
               \<and> prefix (map sink_call_of (enqueued s1)) calls)
         \<and> (loc (thread s2) = Exited \<longrightarrow>
               prefix (map sink_call_of (enqueued s1)) (mPrintFn (thread s2))
               \<and> (\<exists>n. since_stop_seen (trace (thread s2))
                          = [Load False, DrainCall, DrainReturn n]))
         \<and> (steps_to_exit (thread s2) + 2 * length (filter (\<lambda>a. a \<noteq> ThreadStep) further)
               \<le> length (filter (\<lambda>a. a = ThreadStep) further) \<longrightarrow>
             loc (thread (run further s2)) = Exited)"
proof -
  from assms(2) have c1: "conserved s1" and tr1: "trace_inv (thread s1)"
    by (simp_all add: run_conserved run_trace_inv system_new_invariants)
  from assms(1,2) have "in_loop (thread s1)"
    using run_in_loop [OF assms(1) system_new_invariants(3)] by simp
  with c1 have "flushed (enqueued s1) (system_step StopCall s1)"
    by (rule Stop_flushed)
  then have "flushed (enqueued s1) (run after (system_step StopCall s1))"
    by (rule run_flushed)
  with assms(3) have f2: "flushed (enqueued s1) s2"
    by (simp add: run_def)
  from tr1 assms(3) have tr2: "trace_inv (thread s2)"
    by (simp add: run_trace_inv)
  from f2 have stopped: "\<not> mShouldRun (thread s2)"
    by (rule flushed_stays_stopped)
  have s3: "thread s3 = (ThreadMain_step record_sink ^^ steps_to_exit (thread s2)) (thread s2)"
    by (simp add: assms(5) run_thread_steps)
  have final: "steps_to_exit (thread s2) = nat numProcessed + 2
      \<and> thread s3 = (thread s2)\<lparr>mPrintFn := calls, mLogger := lg', loc := Exited,
            trace := trace (thread s2) @ [Load False, DrainCall, DrainReturn numProcessed]\<rparr>"
    if "loc (thread s2) = AtLoopTest"
    using ThreadMain_final_pass [OF that stopped assms(4)] s3 by simp
  from stopped have live: "loc (thread s3) = Exited"
    unfolding s3 by (rule ThreadMain_exits) simp
  from assms(4) have "calls = mPrintFn (thread s2)
                                @ map sink_call_of (items (mQueue (mLogger (thread s2))))"
    by (simp add: PrintAndClearLogQueue_record)
  with f2 have "calls = map sink_call_of (enqueued s2)"
    by (simp add: flushed_def conserved_def)
  moreover from f2 have "prefix (map sink_call_of (enqueued s1)) (map sink_call_of (enqueued s2))"
    by (simp add: flushed_def map_mono_prefix)
  ultimately have all: "prefix (map sink_call_of (enqueued s1)) calls"
    by simp
  have delivers: "mPrintFn (thread s3) = calls \<and> mLogger (thread s3) = lg'"
    if "loc (thread s2) \<noteq> Exited"
    using ThreadMain_delivers_queue [OF stopped that assms(4)] s3 by simp
  have safe: "prefix (map sink_call_of (enqueued s1)) (mPrintFn (thread s2))
      \<and> (\<exists>n. since_stop_seen (trace (thread s2)) = [Load False, DrainCall, DrainReturn n])"
    if "loc (thread s2) = Exited"
    using flushed_delivered [OF f2 that] exited_trace [OF tr2 that] by simp
  have any: "loc (thread (run further s2)) = Exited"
    if "steps_to_exit (thread s2) + 2 * length (filter (\<lambda>a. a \<noteq> ThreadStep) further)
               \<le> length (filter (\<lambda>a. a = ThreadStep) further)"
    using stopped that by (rule run_exits)
  from final live delivers all safe any show ?thesis
    by blast
qed

theorem Stop_flushes_queue_witness:
  "StopCall \<notin> set [ProducerLog (1::nat) ''a'', ProducerLog 2 ''b'', ProducerLog 3 ''c'',
                     ProducerLog 4 ''d'', ProducerLog 5 ''e'']
   \<and> thread (run [StopCall]
        (run [ProducerLog (1::nat) ''a'', ProducerLog 2 ''b'', ProducerLog 3 ''c'',
              ProducerLog 4 ''d'', ProducerLog 5 ''e''] (system_new (Logger_new 8 4 0) 10)))
       = \<lparr>mPrintFn = [],
          mLogger = \<lparr>MaxMessageLength = 4, SequenceNumber = 5,
            mQueue = \<lparr>capacity = 8, items =
              [\<lparr>mLogData = 1, mSequenceNumber = 1, mMessage = ''a'' @ [NUL, NUL, NUL]\<rparr>,
               \<lparr>mLogData = 2, mSequenceNumber = 2, mMessage = ''b'' @ [NUL, NUL, NUL]\<rparr>,
               \<lparr>mLogData = 3, mSequenceNumber = 3, mMessage = ''c'' @ [NUL, NUL, NUL]\<rparr>,
               \<lparr>mLogData = 4, mSequenceNumber = 4, mMessage = ''d'' @ [NUL, NUL, NUL]\<rparr>,
               \<lparr>mLogData = 5, mSequenceNumber = 5, mMessage = ''e'' @ [NUL, NUL, NUL]\<rparr>]\<rparr>\<rparr>,
          mShouldRun = False, mWaitTime = 10, loc = AtLoopTest, trace = []\<rparr>
   \<and> PrintAndClearLogQueue record_sink []
         \<lparr>MaxMessageLength = 4, SequenceNumber = 5,
            mQueue = \<lparr>capacity = 8, items =
              [\<lparr>mLogData = 1::nat, mSequenceNumber = 1, mMessage = ''a'' @ [NUL, NUL, NUL]\<rparr>,
               \<lparr>mLogData = 2, mSequenceNumber = 2, mMessage = ''b'' @ [NUL, NUL, NUL]\<rparr>,
               \<lparr>mLogData = 3, mSequenceNumber = 3, mMessage = ''c'' @ [NUL, NUL, NUL]\<rparr>,
               \<lparr>mLogData = 4, mSequenceNumber = 4, mMessage = ''d'' @ [NUL, NUL, NUL]\<rparr>,
               \<lparr>mLogData = 5, mSequenceNumber = 5, mMessage = ''e'' @ [NUL, NUL, NUL]\<rparr>]\<rparr>\<rparr>
       = ([(1, 1, ''%s'', ''a'' @ [NUL, NUL, NUL]), (2, 2, ''%s'', ''b'' @ [NUL, NUL, NUL]),
           (3, 3, ''%s'', ''c'' @ [NUL, NUL, NUL]), (4, 4, ''%s'', ''d'' @ [NUL, NUL, NUL]),
           (5, 5, ''%s'', ''e'' @ [NUL, NUL, NUL])], 5,
          \<lparr>MaxMessageLength = 4, SequenceNumber = 5, mQueue = \<lparr>capacity = 8, items = []\<rparr>\<rparr>)
   \<and> thread (run (replicate 7 ThreadStep) (run [StopCall]
        (run [ProducerLog (1::nat) ''a'', ProducerLog 2 ''b'', ProducerLog 3 ''c'',
              ProducerLog 4 ''d'', ProducerLog 5 ''e''] (system_new (Logger_new 8 4 0) 10))))
       = \<lparr>mPrintFn = [(1, 1, ''%s'', ''a'' @ [NUL, NUL, NUL]), (2, 2, ''%s'', ''b'' @ [NUL, NUL, NUL]),
           (3, 3, ''%s'', ''c'' @ [NUL, NUL, NUL]), (4, 4, ''%s'', ''d'' @ [NUL, NUL, NUL]),
           (5, 5, ''%s'', ''e'' @ [NUL, NUL, NUL])],
          mLogger = \<lparr>MaxMessageLength = 4, SequenceNumber = 5,
                      mQueue = \<lparr>capacity = 8, items = []\<rparr>\<rparr>,
          mShouldRun = False, mWaitTime = 10, loc = Exited,
          trace = [Load False, DrainCall, DrainReturn 5]\<rparr>
   \<and> map sink_call_of (enqueued
        (run [ProducerLog (1::nat) ''a'', ProducerLog 2 ''b'', ProducerLog 3 ''c'',
              ProducerLog 4 ''d'', ProducerLog 5 ''e''] (system_new (Logger_new 8 4 0) 10)))
       = [(1, 1, ''%s'', ''a'' @ [NUL, NUL, NUL]), (2, 2, ''%s'', ''b'' @ [NUL, NUL, NUL]),
           (3, 3, ''%s'', ''c'' @ [NUL, NUL, NUL]), (4, 4, ''%s'', ''d'' @ [NUL, NUL, NUL]),
           (5, 5, ''%s'', ''e'' @ [NUL, NUL, NUL])]
   \<and> loc (thread (run ([ThreadStep, ProducerLog 6 ''f''] @ replicate 8 ThreadStep) (run [StopCall]
        (run [ProducerLog (1::nat) ''a'', ProducerLog 2 ''b'', ProducerLog 3 ''c'',
              ProducerLog 4 ''d'', ProducerLog 5 ''e''] (system_new (Logger_new 8 4 0) 10)))))
       = Exited
   \<and> loc (thread (run (StopCall # replicate 7 ThreadStep)
        (run [ProducerLog (1::nat) ''a'', ProducerLog 2 ''b'', ProducerLog 3 ''c'',
              ProducerLog 4 ''d'', ProducerLog 5 ''e''] (system_new (Logger_new 8 4 0) 10))))
       = Exited
   \<and> since_stop_seen (trace (thread (run (StopCall # replicate 7 ThreadStep)
        (run [ProducerLog (1::nat) ''a'', ProducerLog 2 ''b'', ProducerLog 3 ''c'',
              ProducerLog 4 ''d'', ProducerLog 5 ''e''] (system_new (Logger_new 8 4 0) 10)))))
       = [Load False, DrainCall, DrainReturn 5]"
proof -
  define before where "before = [ProducerLog (1::nat) ''a'', ProducerLog 2 ''b'',
                ProducerLog 3 ''c'', ProducerLog 4 ''d'', ProducerLog 5 ''e'']"
  define c5 where "c5 = [(1::nat, 1::64 word, ''%s'', ''a'' @ [NUL, NUL, NUL]),
           (2, 2, ''%s'', ''b'' @ [NUL, NUL, NUL]),
           (3, 3, ''%s'', ''c'' @ [NUL, NUL, NUL]), (4, 4, ''%s'', ''d'' @ [NUL, NUL, NUL]),
           (5, 5, ''%s'', ''e'' @ [NUL, NUL, NUL])]"
  define lg0 where "lg0 = \<lparr>MaxMessageLength = 4, SequenceNumber = 5,
                      mQueue = \<lparr>capacity = 8, items = ([] :: nat InternalLogData list)\<rparr>\<rparr>"
  define s1 where "s1 = run before (system_new (Logger_new 8 4 0) 10)"
  define s2 where "s2 = run (StopCall # []) s1"
  define s3 where "s3 = run (replicate (steps_to_exit (thread s2)) ThreadStep) s2"
  define s2' where "s2' = run (StopCall # replicate 7 ThreadStep) s1"
  define s3' where "s3' = run (replicate (steps_to_exit (thread s2')) ThreadStep) s2'"
  have nostop: "StopCall \<notin> set before"
    by (simp add: before_def)
  have t2: "thread s2 = \<lparr>mPrintFn = [],
          mLogger = \<lparr>MaxMessageLength = 4, SequenceNumber = 5,
            mQueue = \<lparr>capacity = 8, items =
              [\<lparr>mLogData = 1, mSequenceNumber = 1, mMessage = ''a'' @ [NUL, NUL, NUL]\<rparr>,
               \<lparr>mLogData = 2, mSequenceNumber = 2, mMessage = ''b'' @ [NUL, NUL, NUL]\<rparr>,
               \<lparr>mLogData = 3, mSequenceNumber = 3, mMessage = ''c'' @ [NUL, NUL, NUL]\<rparr>,
               \<lparr>mLogData = 4, mSequenceNumber = 4, mMessage = ''d'' @ [NUL, NUL, NUL]\<rparr>,
               \<lparr>mLogData = 5, mSequenceNumber = 5, mMessage = ''e'' @ [NUL, NUL, NUL]\<rparr>]\<rparr>\<rparr>,
          mShouldRun = False, mWaitTime = 10, loc = AtLoopTest, trace = []\<rparr>"
    by (simp add: s2_def s1_def before_def system_eval eval_nat_numeral)
  have drain: "PrintAndClearLogQueue record_sink (mPrintFn (thread s2)) (mLogger (thread s2))
      = (c5, 5, lg0)"
    by (simp add: t2 PrintAndClearLogQueue_record sink_call_of_def c5_def lg0_def)
  have enq: "map sink_call_of (enqueued s1) = c5"
    by (simp add: s1_def before_def system_eval sink_call_of_def eval_nat_numeral c5_def)
  have ex': "loc (thread s2') = Exited"
    by (simp add: s2'_def s1_def before_def system_eval eval_nat_numeral)
  have tr': "since_stop_seen (trace (thread s2')) = [Load False, DrainCall, DrainReturn 5]"
    by (simp add: s2'_def s1_def before_def system_eval since_stop_seen_def eval_nat_numeral)
  obtain calls' n' lg'' where drain': "PrintAndClearLogQueue record_sink (mPrintFn (thread s2'))
      (mLogger (thread s2')) = (calls', n', lg'')"
    by (cases "PrintAndClearLogQueue record_sink (mPrintFn (thread s2')) (mLogger (thread s2'))")
  note a = Stop_flushes_queue [OF nostop s1_def s2_def drain s3_def,
      of "[ThreadStep, ProducerLog 6 ''f''] @ replicate 8 ThreadStep"]
  note b = Stop_flushes_queue [OF nostop s1_def s2'_def drain' s3'_def, of "[]"]
  from a t2 have steps: "steps_to_exit (thread s2) = 7"
    and t3: "thread s3 = \<lparr>mPrintFn = c5, mLogger = lg0, mShouldRun = False, mWaitTime = 10,
               loc = Exited, trace = [Load False, DrainCall, DrainReturn 5]\<rparr>"
    and any: "loc (thread (run ([ThreadStep, ProducerLog 6 ''f''] @ replicate 8 ThreadStep) s2))
               = Exited"
    by simp_all
  from b ex' have "prefix (map sink_call_of (enqueued s1)) (mPrintFn (thread s2'))"
    by simp
  from nostop t2 drain t3 enq any ex' tr' steps show ?thesis
    by (simp only: before_def s1_def s2_def s3_def s2'_def c5_def lg0_def) simp
qed

end
